theory Spec2Isabelle
  imports Main "HOL-Library.Word" "HOL-Library.Sublist"
begin

section \<open>Throttler: data model\<close>

text \<open>
  The program is \<^verbatim>\<open>src/throttler.c\<close>.  \<^verbatim>\<open>typedef unsigned long long int llu\<close> is a
  64-bit unsigned integer on every platform the program runs on (Linux), so it is a
  64-bit word: \<open>+\<close> and \<open>*\<close> wrap around as in C.
\<close>

type_synonym llu = "64 word"

text \<open>
  \<^verbatim>\<open>struct options_t\<close>.  The two \<^verbatim>\<open>const char *\<close> fields may be \<^verbatim>\<open>NULL\<close>, which is
  \<open>None\<close>.
\<close>

record options_t =
  max_up :: llu
  max_down :: llu
  max_total :: llu
  interface :: "string option"
  action :: "string option"

text \<open>\<^verbatim>\<open>static struct options_t options = {0, 0, 0, NULL, NULL}\<close>\<close>

definition options_init :: options_t where
  "options_init = \<lparr>max_up = 0, max_down = 0, max_total = 0, interface = None, action = None\<rparr>"

definition VERSION_STR :: string where
  "VERSION_STR = ''0.1''"

definition NETFILE :: string where
  "NETFILE = ''/proc/net/dev''"

subsection \<open>Observable effects\<close>

text \<open>
  What the process does to the outside world, in order: text written to standard output
  by \<^verbatim>\<open>printf\<close>, the calls on the statistics file (\<^verbatim>\<open>fopen\<close> with its success, each
  \<^verbatim>\<open>fgets\<close>, \<^verbatim>\<open>fclose\<close>) and the call of \<^verbatim>\<open>system\<close> with its argument.
\<close>

datatype event =
    Printf string
  | Fopen string bool
  | Fgets
  | Fclose
  | System "string option"

text \<open>
  A function of the program either returns to its caller or stops the process:
  \<^verbatim>\<open>exit(n)\<close> is \<open>Exit n\<close>.  \<open>Unmodelled\<close> stands for runs that leave this embedding:
  undefined behaviour of C (a \<^verbatim>\<open>NULL\<close> string printed or copied, the 128-byte format
  buffer overrun) and conversion specifications smuggled into a format string.
\<close>

datatype halt = Exit int | Unmodelled

type_synonym 'a outcome = "event list \<times> (halt + 'a)"

section \<open>The C library's formatted input\<close>

text \<open>
  \<^verbatim>\<open>sscanf\<close> is not part of the repository; it is modelled after ISO C (7.21.6.2,
  \<^emph>\<open>The fscanf function\<close>) for the directives the program uses: white space, ordinary
  characters, \<^verbatim>\<open>%llu\<close>, \<^verbatim>\<open>%*llu\<close> and \<^verbatim>\<open>%c\<close>.
\<close>

definition isspace :: "char \<Rightarrow> bool" where
  "isspace c \<longleftrightarrow> c \<in> set [CHR 0x20, CHR 0x09, CHR 0x0A, CHR 0x0B, CHR 0x0C, CHR 0x0D]"

definition isdigit :: "char \<Rightarrow> bool" where
  "isdigit c \<longleftrightarrow> 48 \<le> (of_char c :: nat) \<and> (of_char c :: nat) \<le> 57"

definition digit_value :: "char \<Rightarrow> nat" where
  "digit_value c = of_char c - 48"

text \<open>The value of a sequence of decimal digits, most significant first.\<close>

definition decimal_value :: "string \<Rightarrow> nat" where
  "decimal_value ds = foldl (\<lambda>a c. 10 * a + digit_value c) 0 ds"

text \<open>
  \<^verbatim>\<open>strtoull\<close>'s result for a subject sequence with the given sign and magnitude: a value
  that does not fit is \<^verbatim>\<open>ULLONG_MAX\<close> (glibc and musl; ISO C leaves it undefined for
  \<^verbatim>\<open>scanf\<close>), a minus sign negates in the unsigned type.
\<close>

definition strtoull_value :: "bool \<Rightarrow> nat \<Rightarrow> llu" where
  "strtoull_value neg n =
     (if 2 ^ 64 \<le> n then - 1 else if neg then - word_of_nat n else word_of_nat n)"

datatype conversion = Input_Failure | Matching_Failure | Converted llu string

text \<open>
  \<^verbatim>\<open>%llu\<close>: skip white space, then an optionally signed run of decimal digits.  The end
  of the input before any character of the item is an input failure; an item with no
  digit is a matching failure.
\<close>

definition conv_llu :: "string \<Rightarrow> conversion" where
  "conv_llu inp =
     (case dropWhile isspace inp of
        [] \<Rightarrow> Input_Failure
      | c # cs \<Rightarrow>
          (let neg = (c = CHR ''-'');
               body = (if c = CHR ''-'' \<or> c = CHR ''+'' then cs else c # cs);
               ds = takeWhile isdigit body
           in if ds = [] then Matching_Failure
              else Converted (strtoull_value neg (decimal_value ds)) (dropWhile isdigit body)))"

datatype directive =
    White_Space
  | Ordinary char
  | Conv_llu bool
  | Conv_c bool
  | Unsupported

text \<open>
  The directives of a format string.  The flag of a conversion says whether assignment
  is suppressed (\<^verbatim>\<open>*\<close>).  Any other \<^verbatim>\<open>%\<close> sequence is outside the model.
\<close>

fun parse_format :: "string \<Rightarrow> directive list" where
  "parse_format [] = []"
| "parse_format (c # fs) =
     (if c = CHR ''%'' then
        (if take 3 fs = ''llu'' then Conv_llu False # parse_format (drop 3 fs)
         else if take 4 fs = ''*llu'' then Conv_llu True # parse_format (drop 4 fs)
         else if take 1 fs = ''c'' then Conv_c False # parse_format (drop 1 fs)
         else [Unsupported])
      else if isspace c then White_Space # parse_format fs
      else Ordinary c # parse_format fs)"

datatype scan_val = Val_llu llu | Val_char char

text \<open>
  The return value of \<^verbatim>\<open>sscanf\<close> when it stops with the assignments \<open>acc\<close> made so far:
  their number, or \<^verbatim>\<open>EOF\<close> (\<open>-1\<close>) when the input ran out before the first of them.
\<close>

definition input_failure :: "scan_val list \<Rightarrow> int \<times> scan_val list" where
  "input_failure acc = (if acc = [] then - 1 else int (length acc), acc)"

definition matching_failure :: "scan_val list \<Rightarrow> int \<times> scan_val list" where
  "matching_failure acc = (int (length acc), acc)"

fun run_directives :: "directive list \<Rightarrow> string \<Rightarrow> scan_val list \<Rightarrow> int \<times> scan_val list" where
  "run_directives [] inp acc = (int (length acc), acc)"
| "run_directives (White_Space # ds) inp acc = run_directives ds (dropWhile isspace inp) acc"
| "run_directives (Ordinary c # ds) inp acc =
     (case inp of
        [] \<Rightarrow> input_failure acc
      | x # xs \<Rightarrow> if x = c then run_directives ds xs acc else matching_failure acc)"
| "run_directives (Conv_llu suppress # ds) inp acc =
     (case conv_llu inp of
        Input_Failure \<Rightarrow> input_failure acc
      | Matching_Failure \<Rightarrow> matching_failure acc
      | Converted v rest \<Rightarrow>
          run_directives ds rest (if suppress then acc else acc @ [Val_llu v]))"
| "run_directives (Conv_c suppress # ds) inp acc =
     (case inp of
        [] \<Rightarrow> input_failure acc
      | x # xs \<Rightarrow> run_directives ds xs (if suppress then acc else acc @ [Val_char x]))"
| "run_directives (Unsupported # ds) inp acc = matching_failure acc"

text \<open>
  A C string ends at its first NUL byte; \<^verbatim>\<open>sscanf(str, format, ...)\<close> returns the count
  and the values it stored through its pointer arguments, in order.
\<close>

definition c_str :: "string \<Rightarrow> string" where
  "c_str s = takeWhile (\<lambda>c. c \<noteq> CHR 0x00) s"

definition sscanf :: "string \<Rightarrow> string \<Rightarrow> int \<times> scan_val list" where
  "sscanf str format = run_directives (parse_format format) (c_str str) []"

section \<open>Byte-quantity parser\<close>

text \<open>\<^verbatim>\<open>llu get_unit_factor(char unit)\<close>\<close>

definition get_unit_factor :: "char \<Rightarrow> llu" where
  "get_unit_factor unit =
     (if unit = CHR ''k'' \<or> unit = CHR ''K'' then push_bit 10 1
      else if unit = CHR ''m'' \<or> unit = CHR ''M'' then push_bit 20 1
      else if unit = CHR ''g'' \<or> unit = CHR ''G'' then push_bit 30 1
      else if unit = CHR ''t'' \<or> unit = CHR ''T'' then push_bit 40 1
      else 1)"

text \<open>
  \<^verbatim>\<open>int get_bytes_formatted(const char *arg, llu *bytes)\<close>.  The second argument is the
  value \<^verbatim>\<open>*bytes\<close> holds at the call; the result is the returned \<^verbatim>\<open>int\<close> and the value
  \<^verbatim>\<open>*bytes\<close> holds afterwards.  When \<^verbatim>\<open>sscanf\<close> assigns nothing, \<^verbatim>\<open>*bytes\<close> is not written.
\<close>

definition get_bytes_formatted :: "string \<Rightarrow> llu \<Rightarrow> int \<times> llu" where
  "get_bytes_formatted arg bytes =
     (let (n, vals) = sscanf arg ''%llu%c'';
          bytes1 = (case vals of Val_llu b # _ \<Rightarrow> b | _ \<Rightarrow> bytes)
      in if n \<noteq> 1 \<and> n \<noteq> 2 then (0, bytes1)
         else if n = 2 then
           (case vals of
              [_, Val_char unit] \<Rightarrow> (1, bytes1 * get_unit_factor unit)
            | _ \<Rightarrow> (1, bytes1))
         else (1, bytes1))"

section \<open>Formatted output\<close>

definition digit_char :: "nat \<Rightarrow> char" where
  "digit_char d = char_of (48 + d)"

text \<open>\<^verbatim>\<open>%llu\<close> and \<^verbatim>\<open>%o\<close> of \<^verbatim>\<open>printf\<close>: the digits of a number in base 10 and in base 8.\<close>

fun show_dec :: "nat \<Rightarrow> string" where
  "show_dec n = (if n < 10 then [digit_char n] else show_dec (n div 10) @ [digit_char (n mod 10)])"

fun show_oct :: "nat \<Rightarrow> string" where
  "show_oct n = (if n < 8 then [digit_char n] else show_oct (n div 8) @ [digit_char (n mod 8)])"

declare show_dec.simps [simp del]
declare show_oct.simps [simp del]

definition TAB :: string where
  "TAB = [CHR 0x09]"

definition NL :: string where
  "NL = [CHR 0x0A]"

text \<open>The text \<^verbatim>\<open>display_help\<close> and \<^verbatim>\<open>display_version\<close> print.\<close>

definition version_text :: string where
  "version_text = ''Throttler '' @ VERSION_STR @ NL"

definition help_text :: string where
  "help_text =
     ''Throttler '' @ VERSION_STR @ NL @
     ''Author: Marius Graefe'' @ NL @
     ''Usage:'' @ NL @
     TAB @ ''throttler [{OPTIONS}] interface action'' @ NL @ NL @
     ''Options:'' @ NL @
     TAB @ ''-u | --max-upload limit'' @ NL @
     TAB @ TAB @ ''Specify upload limit'' @ NL @
     TAB @ ''-d | --max-down limit'' @ NL @
     TAB @ TAB @ ''Specify download limit'' @ NL @
     TAB @ ''-t | --max-total limit'' @ NL @
     TAB @ TAB @ ''Specify limit of up- and download combined'' @ NL @
     TAB @ ''-h | --help'' @ NL @
     TAB @ TAB @ ''Display this help message'' @ NL @
     TAB @ ''-v | --version'' @ NL @
     TAB @ TAB @ ''Display version information'' @ NL @
     ''Limits are measured in bytes and may be specified with the following suffixes:'' @ NL @
     TAB @ ''k or K for Kilobytes, m or M for Megabytes, g or G for Gigabytes, t or T for Terabytes.'' @ NL @
     TAB @ ''If no suffix is specified pure bytes are assumed.'' @ NL @
     TAB @ ''Example: throttler eth0 -u 10G -d 10G -t 15G '' @ [CHR 0x27] @ ''echo Throttle'' @ [CHR 0x27] @ NL @
     ''If called without any limits it simply outputs the number of bytes received and transmitted on the specified interface'' @ NL"

definition display_version :: "unit outcome" where
  "display_version = ([Printf version_text], Inr ())"

definition display_help :: "unit outcome" where
  "display_help = ([Printf help_text], Inr ())"

section \<open>Sequencing\<close>

text \<open>
  Run \<open>f\<close> on the value a step returned, after its effects; a step that stopped the
  process stops the whole.
\<close>

definition and_then :: "'a outcome \<Rightarrow> ('a \<Rightarrow> 'b outcome) \<Rightarrow> 'b outcome" where
  "and_then m f =
     (case m of
        (tr, Inl h) \<Rightarrow> (tr, Inl h)
      | (tr, Inr x) \<Rightarrow> (case f x of (tr', r) \<Rightarrow> (tr @ tr', r)))"

definition exit_with :: "int \<Rightarrow> 'a outcome" where
  "exit_with n = ([], Inl (Exit n))"

definition printf :: "string \<Rightarrow> unit outcome" where
  "printf s = ([Printf s], Inr ())"

section \<open>Command line\<close>

text \<open>
  \<^verbatim>\<open>getopt_long\<close> is the C library's.  Its calls are represented by what they deliver:
  the pairs of return value \<^verbatim>\<open>opt\<close> and \<^verbatim>\<open>optarg\<close> of the successive calls up to the
  one that returns \<open>-1\<close>, and the non-option arguments \<^verbatim>\<open>argv[optind .. argc - 1]\<close> it
  leaves at the end.  \<^verbatim>\<open>optarg\<close> is read only for \<^verbatim>\<open>u\<close>, \<^verbatim>\<open>d\<close> and \<^verbatim>\<open>t\<close>, which are
  declared with a required argument.
\<close>

type_synonym getopt_ret = "int \<times> string"

definition opt_code :: "char \<Rightarrow> int" where
  "opt_code c = of_char c"

text \<open>One pass of the \<^verbatim>\<open>while (1)\<close> loop of \<^verbatim>\<open>parse_cmd_line\<close> per delivered option.\<close>

fun getopt_loop :: "getopt_ret list \<Rightarrow> options_t \<Rightarrow> options_t outcome" where
  "getopt_loop [] options = ([], Inr options)"
| "getopt_loop ((opt, optarg) # later) options =
     (if opt = opt_code CHR ''u'' then
        (case get_bytes_formatted optarg (max_up options) of (ok, b) \<Rightarrow>
           and_then (if ok = 0 then printf (''Invalid argument for max upload'' @ NL) else ([], Inr ()))
             (\<lambda>_. getopt_loop later (options\<lparr>max_up := b\<rparr>)))
      else if opt = opt_code CHR ''d'' then
        (case get_bytes_formatted optarg (max_down options) of (ok, b) \<Rightarrow>
           and_then (if ok = 0 then printf (''Invalid argument for max download'' @ NL) else ([], Inr ()))
             (\<lambda>_. getopt_loop later (options\<lparr>max_down := b\<rparr>)))
      else if opt = opt_code CHR ''t'' then
        (case get_bytes_formatted optarg (max_total options) of (ok, b) \<Rightarrow>
           and_then (if ok = 0 then printf (''Invalid argument for max download'' @ NL) else ([], Inr ()))
             (\<lambda>_. getopt_loop later (options\<lparr>max_total := b\<rparr>)))
      else if opt = opt_code CHR ''v'' then
        and_then display_version (\<lambda>_. exit_with 0)
      else if opt = opt_code CHR ''h'' then
        and_then display_help (\<lambda>_. exit_with 0)
      else
        and_then
          (printf (''?? getopt returned character code 0'' @ show_oct (nat (opt mod 2 ^ 32)) @ '' ??'' @ NL))
          (\<lambda>_. getopt_loop later options))"

text \<open>
  \<^verbatim>\<open>void parse_cmd_line(int argc, char **argv, struct options_t *options)\<close>: the option
  loop, then the interface and the action from the remaining arguments.
\<close>

definition parse_cmd_line :: "getopt_ret list \<Rightarrow> string list \<Rightarrow> options_t \<Rightarrow> options_t outcome" where
  "parse_cmd_line opts args options =
     and_then (getopt_loop opts options) (\<lambda>options1.
       case args of
         [] \<Rightarrow>
           and_then
             (printf (''Missing interface specifier - call with --help to get information'' @ NL))
             (\<lambda>_. exit_with 1)
       | a # rest \<Rightarrow>
           (case rest of
              [] \<Rightarrow> ([], Inr (options1\<lparr>interface := Some a\<rparr>))
            | b # _ \<Rightarrow> ([], Inr (options1\<lparr>interface := Some a, action := Some b\<rparr>))))"

section \<open>Counter source reader\<close>

text \<open>
  \<^verbatim>\<open>fgets(buf, n, file)\<close> on the unread rest of the file: nothing at the end of the file,
  otherwise at most \<open>n - 1\<close> characters, up to and including the first newline, and the
  new rest.
\<close>

fun read_line :: "nat \<Rightarrow> string \<Rightarrow> string \<times> string" where
  "read_line k [] = ([], [])"
| "read_line k (c # cs) =
     (if k = 0 then ([], c # cs)
      else if c = CHR 0x0A then ([c], cs)
      else (case read_line (k - 1) cs of (l, r) \<Rightarrow> (c # l, r)))"

definition fgets :: "nat \<Rightarrow> string \<Rightarrow> (string \<times> string) option" where
  "fgets n stream = (if stream = [] then None else Some (read_line (n - 1) stream))"

text \<open>
  The format \<^verbatim>\<open>get_dev_rx_tx\<close> builds in \<^verbatim>\<open>char format[128]\<close> with \<^verbatim>\<open>strcpy\<close> and
  \<^verbatim>\<open>strcat\<close>.
\<close>

definition dev_format :: "string \<Rightarrow> string" where
  "dev_format name =
     '' '' @ name @
     '': %llu %*llu %*llu %*llu %*llu %*llu %*llu %*llu '' @
     ''%llu %*llu %*llu %*llu %*llu %*llu %*llu %*llu''"

text \<open>
  The \<^verbatim>\<open>while (fgets(buf, 256, file))\<close> loop: the \<^verbatim>\<open>fgets\<close> calls made, and the values
  stored by the first \<^verbatim>\<open>sscanf\<close> that returns 2, if there is one.  What an earlier
  \<^verbatim>\<open>sscanf\<close> stored in \<^verbatim>\<open>*bytes_rx\<close> is overwritten or never read.
\<close>

function read_loop :: "string \<Rightarrow> string \<Rightarrow> event list \<times> scan_val list option" where
  "read_loop format stream =
     (case fgets 256 stream of
        None \<Rightarrow> ([Fgets], None)
      | Some (buf, rest) \<Rightarrow>
          (case sscanf buf format of (n, vals) \<Rightarrow>
             if n = 2 then ([Fgets], Some vals)
             else (case read_loop format rest of (tr, r) \<Rightarrow> (Fgets # tr, r))))"
  by pat_completeness auto
termination
proof -
  have le: "length (snd (read_line k s)) \<le> length s" for k s
    by (induction k s rule: read_line.induct) (auto split: prod.splits)
  have less: "length rest < length stream"
    if "fgets 256 stream = Some (buf, rest)" for stream buf rest
  proof (cases stream)
    case Nil
    with that show ?thesis by (simp add: fgets_def)
  next
    case (Cons c cs)
    with that have "rest = cs \<or> rest = snd (read_line 254 cs)"
      by (auto simp: fgets_def split: if_splits prod.splits)
    with le [of 254 cs] Cons show ?thesis by auto
  qed
  show ?thesis
    by (relation "measure (\<lambda>(format, stream). length stream)") (auto dest: less)
qed

declare read_loop.simps [simp del]

text \<open>
  The buffers the successive \<^verbatim>\<open>fgets(buf, 256, file)\<close> calls of the loop deliver when it
  runs to the end of the file, and the loop's test \<^verbatim>\<open>sscanf(buf, format, ...) == 2\<close> for
  one of them.
\<close>

function fgets_lines :: "string \<Rightarrow> string list" where
  "fgets_lines stream =
     (case fgets 256 stream of
        None \<Rightarrow> []
      | Some (buf, rest) \<Rightarrow> buf # fgets_lines rest)"
  by pat_completeness auto
termination
proof -
  have le: "length (snd (read_line k s)) \<le> length s" for k s
    by (induction k s rule: read_line.induct) (auto split: prod.splits)
  have less: "length rest < length stream"
    if "fgets 256 stream = Some (buf, rest)" for stream buf rest
  proof (cases stream)
    case Nil
    with that show ?thesis by (simp add: fgets_def)
  next
    case (Cons c cs)
    with that have "rest = cs \<or> rest = snd (read_line 254 cs)"
      by (auto simp: fgets_def split: if_splits prod.splits)
    with le [of 254 cs] Cons show ?thesis by auto
  qed
  show ?thesis
    by (relation "measure length") (auto dest: less)
qed

declare fgets_lines.simps [simp del]

definition line_matches :: "string \<Rightarrow> string \<Rightarrow> bool" where
  "line_matches name buf \<longleftrightarrow> fst (sscanf buf (dev_format name)) = 2"

text \<open>
  \<^verbatim>\<open>void get_dev_rx_tx(const char *interface, llu *bytes_rx, llu *bytes_tx)\<close>.  The
  second argument is the statistics file: \<open>None\<close> when \<^verbatim>\<open>fopen\<close> fails, its contents
  otherwise.  The result is the pair stored in \<^verbatim>\<open>*bytes_rx\<close> and \<^verbatim>\<open>*bytes_tx\<close>.
\<close>

definition get_dev_rx_tx :: "string option \<Rightarrow> string option \<Rightarrow> (llu \<times> llu) outcome" where
  "get_dev_rx_tx ifname src =
     (case ifname of
        None \<Rightarrow> ([], Inl Unmodelled)
      | Some name \<Rightarrow>
          if CHR ''%'' \<in> set name \<or> 128 < length (dev_format name) + 1 then ([], Inl Unmodelled)
          else
            (case src of
               None \<Rightarrow>
                 ([Fopen NETFILE False,
                   Printf (''Error opening '' @ NETFILE @ '', permissions?'' @ NL)],
                  Inl (Exit 1))
             | Some text \<Rightarrow>
                 (case read_loop (dev_format name) text of
                    (tr, None) \<Rightarrow>
                      (Fopen NETFILE True # tr @
                         [Printf (''Could not find interface '' @ name @ '' in '' @ NETFILE @ NL)],
                       Inl (Exit 1))
                  | (tr, Some vals) \<Rightarrow>
                      (case vals of
                         [Val_llu rx, Val_llu tx] \<Rightarrow> (Fopen NETFILE True # tr @ [Fclose], Inr (rx, tx))
                       | _ \<Rightarrow> (Fopen NETFILE True # tr, Inl Unmodelled)))))"

section \<open>Threshold evaluator and action trigger\<close>

text \<open>\<^verbatim>\<open>void perform_action()\<close>: \<^verbatim>\<open>system(options.action)\<close>.\<close>

definition perform_action :: "options_t \<Rightarrow> unit outcome" where
  "perform_action options = ([System (action options)], Inr ())"

text \<open>\<^verbatim>\<open>void evaluate_bytes(llu bytes_rx, llu bytes_tx)\<close>, on the global \<^verbatim>\<open>options\<close>.\<close>

definition evaluate_bytes :: "options_t \<Rightarrow> llu \<Rightarrow> llu \<Rightarrow> unit outcome" where
  "evaluate_bytes options bytes_rx bytes_tx =
     (if max_up options = 0 \<and> max_down options = 0 \<and> max_total options = 0 then
        (case interface options of
           None \<Rightarrow> ([], Inl Unmodelled)
         | Some name \<Rightarrow>
             and_then
               (printf (''Interface '' @ name @ '': Down: '' @ show_dec (unat bytes_rx) @
                        '', Up: '' @ show_dec (unat bytes_tx) @ NL))
               (\<lambda>_. exit_with 0))
      else if (max_up options > 0 \<and> bytes_tx > max_up options) \<or>
              (max_down options > 0 \<and> bytes_rx > max_down options) \<or>
              (max_total options > 0 \<and> (bytes_tx + bytes_rx) > max_total options) then
        perform_action options
      else ([], Inr ()))"

section \<open>The program\<close>

text \<open>
  \<^verbatim>\<open>int main(int argc, char **argv)\<close>: the effects of the run and how the process ends;
  \<^verbatim>\<open>return 0\<close> from \<^verbatim>\<open>main\<close> is \<open>Exit 0\<close>.
\<close>

definition main :: "getopt_ret list \<Rightarrow> string list \<Rightarrow> string option \<Rightarrow> event list \<times> halt" where
  "main opts args src =
     (case and_then (parse_cmd_line opts args options_init) (\<lambda>options.
             and_then (get_dev_rx_tx (interface options) src) (\<lambda>(bytes_rx, bytes_tx).
               evaluate_bytes options bytes_rx bytes_tx)) of
        (tr, Inl h) \<Rightarrow> (tr, h)
      | (tr, Inr _) \<Rightarrow> (tr, Exit 0))"


section \<open>Notions of the specification\<close>

text \<open>
  A string that begins with a number as \<^verbatim>\<open>%llu\<close> reads it: white space, an optional
  sign, then at least one decimal digit.
\<close>

definition begins_with_number :: "string \<Rightarrow> bool" where
  "begins_with_number s \<longleftrightarrow>
     (\<exists>ws sg d rest. s = ws @ sg @ d # rest \<and> (\<forall>c \<in> set ws. isspace c) \<and>
        (sg = [] \<or> sg = ''+'' \<or> sg = ''-'') \<and> isdigit d)"

text \<open>
  An interface name the reader takes literally: a C string (no NUL) with no \<^verbatim>\<open>%\<close> and
  no white space, which \<^verbatim>\<open>sscanf\<close> would read as directives, and short enough for the
  128-byte format buffer.
\<close>

definition plain_name :: "string \<Rightarrow> bool" where
  "plain_name name \<longleftrightarrow>
     (\<forall>c \<in> set name. \<not> isspace c \<and> c \<noteq> CHR ''%'' \<and> c \<noteq> CHR 0x00) \<and> length name \<le> 31"

text \<open>
  The statistics table as a sequence of text lines: a line has no newline and no NUL
  and, with its newline, fits the 256-byte line buffer; the file is the lines, each
  ended by a newline.
\<close>

definition text_line :: "string \<Rightarrow> bool" where
  "text_line l \<longleftrightarrow> CHR 0x0A \<notin> set l \<and> CHR 0x00 \<notin> set l \<and> length l \<le> 254"

definition table_text :: "string list \<Rightarrow> string" where
  "table_text ls = concat (map (\<lambda>l. l @ NL) ls)"

text \<open>
  A line of the table for an interface: indentation, the name, a colon, then numeric
  fields, each a run of white space followed by decimal digits, then the rest of the
  line.
\<close>

definition numeric_field :: "string \<times> string \<Rightarrow> bool" where
  "numeric_field f \<longleftrightarrow>
     fst f \<noteq> [] \<and> (\<forall>c \<in> set (fst f). isspace c) \<and>
     snd f \<noteq> [] \<and> (\<forall>c \<in> set (snd f). isdigit c)"

definition dev_line :: "string \<Rightarrow> string \<Rightarrow> (string \<times> string) list \<Rightarrow> string \<Rightarrow> string" where
  "dev_line indent name fs rest =
     indent @ name @ '':'' @ concat (map (\<lambda>f. fst f @ snd f) fs) @ rest"

section \<open>Evaluation and sequencing lemmas\<close>

lemmas eval_defs =
  sscanf_def dev_format_def NL_def c_str_def conv_llu_def isspace_def isdigit_def
  decimal_value_def digit_value_def strtoull_value_def get_bytes_formatted_def
  get_unit_factor_def parse_cmd_line_def and_then_def printf_def exit_with_def
  options_init_def opt_code_def get_dev_rx_tx_def fgets_def read_loop.simps NETFILE_def
  input_failure_def matching_failure_def

lemma and_then_Inr: "and_then (tr, Inr x) f = (tr @ fst (f x), snd (f x))"
  by (simp add: and_then_def split: prod.splits)

lemma and_then_Inl: "and_then (tr, Inl h) f = (tr, Inl h)"
  by (simp add: and_then_def)

lemma digit_value_digit_char: "d < 10 \<Longrightarrow> digit_value (digit_char d) = d"
  by (simp add: digit_value_def digit_char_def)

lemma decimal_value_snoc: "decimal_value (ds @ [c]) = 10 * decimal_value ds + digit_value c"
  by (simp add: decimal_value_def)

lemma decimal_value_show_dec: "decimal_value (show_dec n) = n"
proof (induction n rule: show_dec.induct)
  case (1 n)
  show ?case
  proof (cases "n < 10")
    case True
    then show ?thesis
      by (simp add: show_dec.simps [of n] decimal_value_def digit_value_digit_char)
  next
    case False
    with 1 show ?thesis
      by (simp add: show_dec.simps [of n] decimal_value_snoc digit_value_digit_char)
  qed
qed

lemma and_then_trace:
  assumes "set (fst m) \<subseteq> S" and "\<And>x. set (fst (f x)) \<subseteq> S"
  shows "set (fst (and_then m f)) \<subseteq> S"
proof (cases m)
  case (Pair tr r)
  show ?thesis
  proof (cases r)
    case (Inl h)
    with Pair assms(1) show ?thesis by (simp add: and_then_def)
  next
    case (Inr x)
    with Pair assms(1) assms(2) [of x] show ?thesis
      by (simp add: and_then_Inr)
  qed
qed

lemma getopt_loop_trace: "set (fst (getopt_loop opts options)) \<subseteq> range Printf"
proof (induction opts arbitrary: options)
  case Nil
  show ?case by simp
next
  case (Cons p opts)
  obtain opt optarg where p: "p = (opt, optarg)" by (cases p)
  have limit: "set (fst (and_then (if ok = 0 then printf s else ([], Inr ()))
                 (\<lambda>_. getopt_loop opts options'))) \<subseteq> range Printf" for ok :: int and s options'
    by (rule and_then_trace) (simp_all add: printf_def Cons.IH)
  have other: "set (fst (and_then (printf s) (\<lambda>_. getopt_loop opts options'))) \<subseteq> range Printf"
    for s options'
    by (rule and_then_trace) (simp_all add: printf_def Cons.IH)
  have stop: "set (fst (and_then ([Printf s], Inr ()) (\<lambda>_. exit_with 0))) \<subseteq> range Printf"
    for s
    by (simp add: and_then_def exit_with_def)
  show ?case
    unfolding p getopt_loop.simps display_help_def display_version_def
    by (simp add: limit other stop split: prod.splits)
qed

lemma parse_cmd_line_trace: "set (fst (parse_cmd_line opts args options)) \<subseteq> range Printf"
  unfolding parse_cmd_line_def
proof (rule and_then_trace)
  show "set (fst (getopt_loop opts options)) \<subseteq> range Printf"
    by (rule getopt_loop_trace)
next
  fix x
  show "set (fst (case args of
          [] \<Rightarrow> and_then
                  (printf (''Missing interface specifier - call with --help to get information'' @ NL))
                  (\<lambda>_. exit_with 1)
        | a # rest \<Rightarrow>
            (case rest of
               [] \<Rightarrow> ([], Inr (x\<lparr>interface := Some a\<rparr>))
             | b # _ \<Rightarrow> ([], Inr (x\<lparr>interface := Some a, action := Some b\<rparr>))))) \<subseteq> range Printf"
    by (simp add: printf_def exit_with_def and_then_def split: list.splits)
qed

lemma parse_cmd_line_no_system: "System cmd \<notin> set (fst (parse_cmd_line opts args options))"
  using parse_cmd_line_trace [of opts args options] by auto

lemma read_loop_only_fgets: "set (fst (read_loop format stream)) \<subseteq> {Fgets}"
proof (induction format stream rule: read_loop.induct)
  case (1 format stream)
  show ?case
  proof (cases "fgets 256 stream")
    case None
    then show ?thesis by (simp add: read_loop.simps [of format stream])
  next
    case (Some p)
    obtain buf rest where p: "p = (buf, rest)" by (cases p)
    obtain n vals where sc: "sscanf buf format = (n, vals)" by (cases "sscanf buf format")
    show ?thesis
    proof (cases "n = 2")
      case True
      with Some p sc show ?thesis by (simp add: read_loop.simps [of format stream])
    next
      case False
      with 1 [OF Some p [symmetric] sc [symmetric]] Some p sc show ?thesis
        by (auto simp: read_loop.simps [of format stream] split: prod.splits)
    qed
  qed
qed

lemma get_dev_rx_tx_trace:
  "set (fst (get_dev_rx_tx ifname src)) \<subseteq>
     {Fopen NETFILE True, Fopen NETFILE False, Fgets, Fclose} \<union> range Printf"
proof (cases ifname)
  case None
  then show ?thesis by (simp add: get_dev_rx_tx_def)
next
  case (Some name)
  show ?thesis
  proof (cases "CHR ''%'' \<in> set name \<or> 128 < length (dev_format name) + 1")
    case True
    with Some show ?thesis by (simp add: get_dev_rx_tx_def)
  next
    case False
    show ?thesis
    proof (cases src)
      case None
      with Some False show ?thesis by (simp add: get_dev_rx_tx_def)
    next
      case (Some contents)
      obtain tr r where rl: "read_loop (dev_format name) contents = (tr, r)"
        by (cases "read_loop (dev_format name) contents")
      have tr: "set tr \<subseteq> {Fgets}"
        using read_loop_only_fgets [of "dev_format name" contents] rl by simp
      have "fst (get_dev_rx_tx ifname src) = Fopen NETFILE True # tr \<or>
            fst (get_dev_rx_tx ifname src) = Fopen NETFILE True # tr @ [Fclose] \<or>
            (\<exists>s. fst (get_dev_rx_tx ifname src) = Fopen NETFILE True # tr @ [Printf s])"
        using \<open>ifname = Some name\<close> False Some rl
        by (simp add: get_dev_rx_tx_def split: option.splits list.splits scan_val.splits)
      with tr show ?thesis by auto
    qed
  qed
qed

lemma get_dev_rx_tx_no_system: "System cmd \<notin> set (fst (get_dev_rx_tx ifname src))"
  using get_dev_rx_tx_trace [of ifname src] by auto

lemma parse_cmd_line_interface:
  assumes "parse_cmd_line opts args options0 = (tr, Inr options)"
  shows "args \<noteq> [] \<and> interface options = Some (hd args)"
  using assms
  by (auto simp: parse_cmd_line_def and_then_def printf_def exit_with_def
      split: prod.splits sum.splits list.splits)

lemma get_bytes_formatted_eq:
  "get_bytes_formatted arg bytes =
     (case conv_llu (c_str arg) of
        Input_Failure \<Rightarrow> (0, bytes)
      | Matching_Failure \<Rightarrow> (0, bytes)
      | Converted v rest \<Rightarrow>
          (case rest of [] \<Rightarrow> (1, v) | unit # _ \<Rightarrow> (1, v * get_unit_factor unit)))"
  by (simp add: get_bytes_formatted_def sscanf_def input_failure_def matching_failure_def
      split: conversion.splits list.splits)

lemma get_bytes_formatted_failure:
  assumes "fst (get_bytes_formatted arg bytes) = 0"
  shows "get_bytes_formatted arg bytes = (0, bytes)"
  using assms by (simp add: get_bytes_formatted_eq split: conversion.splits list.splits)

lemma evaluate_bytes_threshold:
  assumes "max_up options \<noteq> 0 \<or> max_down options \<noteq> 0 \<or> max_total options \<noteq> 0"
  shows "evaluate_bytes options bytes_rx bytes_tx =
           (if (max_up options \<noteq> 0 \<and> unat (max_up options) < unat bytes_tx) \<or>
               (max_down options \<noteq> 0 \<and> unat (max_down options) < unat bytes_rx) \<or>
               (max_total options \<noteq> 0 \<and> unat (max_total options) < unat (bytes_tx + bytes_rx))
            then [System (action options)] else [], Inr ())"
proof -
  have gt: "(0 < w) = (w \<noteq> 0)" for w :: llu
    by (simp add: word_greater_zero_iff)
  have lt: "(a < b) = (unat a < unat b)" for a b :: llu
    by (simp add: word_less_nat_alt)
  show ?thesis
    using assms
    unfolding evaluate_bytes_def perform_action_def gt
    by (simp only: lt [of "max_up options"] lt [of "max_down options"] lt [of "max_total options"]) auto
qed

section \<open>Threshold evaluator\<close>

text \<open>
  C1.  In threshold mode (some limit is not zero) a run that got past the command line
  and the reader ends like this: the evaluator calls the action trigger exactly when
  the transmitted bytes exceed a set \<open>max_up\<close>, or the received bytes exceed a set
  \<open>max_down\<close>, or the sum \<^verbatim>\<open>bytes_tx + bytes_rx\<close> (the program's unsigned 64-bit sum)
  exceeds a set \<open>max_total\<close>.  Each comparison is strict.  Otherwise the evaluator adds
  nothing: no output, no action.  In both cases the process ends with status 0.
\<close>

theorem threshold_mode_fires_iff_limit_exceeded:
  assumes "parse_cmd_line opts args options_init = (tr1, Inr options)"
    and "get_dev_rx_tx (interface options) src = (tr2, Inr (bytes_rx, bytes_tx))"
    and "max_up options \<noteq> 0 \<or> max_down options \<noteq> 0 \<or> max_total options \<noteq> 0"
  shows "main opts args src =
           (tr1 @ tr2 @
            (if (max_up options \<noteq> 0 \<and> unat (max_up options) < unat bytes_tx) \<or>
                (max_down options \<noteq> 0 \<and> unat (max_down options) < unat bytes_rx) \<or>
                (max_total options \<noteq> 0 \<and> unat (max_total options) < unat (bytes_tx + bytes_rx))
             then [System (action options)] else []),
            Exit 0)"
  using assms(1,2)
  by (simp add: main_def and_then_Inr evaluate_bytes_threshold [OF assms(3)])

text \<open>
  The boundary of the specification's example: with \<^verbatim>\<open>-u 1000\<close>, 1000 transmitted
  bytes do not fire and 1001 do.
\<close>

lemma parse_u_1000:
  "parse_cmd_line [(opt_code CHR ''u'', ''1000'')] [''eth0'', ''echo over''] options_init =
     ([], Inr \<lparr>max_up = 1000, max_down = 0, max_total = 0,
               interface = Some ''eth0'', action = Some ''echo over''\<rparr>)"
  by (simp add: eval_defs)

lemma read_tx_1000:
  "get_dev_rx_tx (Some ''eth0'') (Some (''eth0: 0 0 0 0 0 0 0 0 1000 0 0 0 0 0 0 0'' @ NL)) =
     ([Fopen NETFILE True, Fgets, Fclose], Inr (0, 1000))"
  by (simp add: eval_defs)

lemma read_tx_1001:
  "get_dev_rx_tx (Some ''eth0'') (Some (''eth0: 0 0 0 0 0 0 0 0 1001 0 0 0 0 0 0 0'' @ NL)) =
     ([Fopen NETFILE True, Fgets, Fclose], Inr (0, 1001))"
  by (simp add: eval_defs)

theorem threshold_mode_fires_iff_limit_exceeded_witness:
  "main [(opt_code CHR ''u'', ''1000'')] [''eth0'', ''echo over'']
     (Some (''eth0: 0 0 0 0 0 0 0 0 1000 0 0 0 0 0 0 0'' @ NL)) =
     ([Fopen NETFILE True, Fgets, Fclose], Exit 0) \<and>
   main [(opt_code CHR ''u'', ''1000'')] [''eth0'', ''echo over'']
     (Some (''eth0: 0 0 0 0 0 0 0 0 1001 0 0 0 0 0 0 0'' @ NL)) =
     ([Fopen NETFILE True, Fgets, Fclose, System (Some ''echo over'')], Exit 0)"
proof -
  let ?options = "\<lparr>max_up = 1000, max_down = 0, max_total = 0,
                   interface = Some ''eth0'', action = Some ''echo over''\<rparr>"
  have set: "max_up ?options \<noteq> 0 \<or> max_down ?options \<noteq> 0 \<or> max_total ?options \<noteq> 0"
    by simp
  have r0: "get_dev_rx_tx (interface ?options)
              (Some (''eth0: 0 0 0 0 0 0 0 0 1000 0 0 0 0 0 0 0'' @ NL)) =
            ([Fopen NETFILE True, Fgets, Fclose], Inr (0, 1000))"
    using read_tx_1000 by simp
  have r1: "get_dev_rx_tx (interface ?options)
              (Some (''eth0: 0 0 0 0 0 0 0 0 1001 0 0 0 0 0 0 0'' @ NL)) =
            ([Fopen NETFILE True, Fgets, Fclose], Inr (0, 1001))"
    using read_tx_1001 by simp
  show ?thesis
    using threshold_mode_fires_iff_limit_exceeded [OF parse_u_1000 r0 set]
      threshold_mode_fires_iff_limit_exceeded [OF parse_u_1000 r1 set]
    by simp
qed

text \<open>
  C5.  With all three limits zero, a run that got past the command line and the reader
  prints the line \<^verbatim>\<open>Interface <name>: Down: <bytes_rx>, Up: <bytes_tx>\<close> (and a newline),
  the numbers in decimal, and ends with status 0; it is the evaluator's only effect, and
  \<^verbatim>\<open>system\<close> is not called anywhere in the run, whatever the action argument is.
\<close>

theorem no_threshold_mode_prints_status:
  assumes "parse_cmd_line opts args options_init = (tr1, Inr options)"
    and "get_dev_rx_tx (interface options) src = (tr2, Inr (bytes_rx, bytes_tx))"
    and "max_up options = 0 \<and> max_down options = 0 \<and> max_total options = 0"
  shows "\<exists>name. interface options = Some name \<and>
           main opts args src =
             (tr1 @ tr2 @
              [Printf (''Interface '' @ name @ '': Down: '' @ show_dec (unat bytes_rx) @
                       '', Up: '' @ show_dec (unat bytes_tx) @ NL)],
              Exit 0) \<and>
           decimal_value (show_dec (unat bytes_rx)) = unat bytes_rx \<and>
           decimal_value (show_dec (unat bytes_tx)) = unat bytes_tx \<and>
           (\<forall>cmd. System cmd \<notin> set (fst (main opts args src)))"
proof -
  from parse_cmd_line_interface [OF assms(1)]
  obtain name where name: "interface options = Some name" by blast
  let ?line = "Printf (''Interface '' @ name @ '': Down: '' @ show_dec (unat bytes_rx) @
                       '', Up: '' @ show_dec (unat bytes_tx) @ NL)"
  have ev: "evaluate_bytes options bytes_rx bytes_tx = ([?line], Inl (Exit 0))"
    using assms(3) name by (simp add: evaluate_bytes_def and_then_def printf_def exit_with_def)
  have m: "main opts args src = (tr1 @ tr2 @ [?line], Exit 0)"
    using assms(1,2) by (simp add: main_def and_then_Inr ev)
  have "System cmd \<notin> set tr1" for cmd
    using parse_cmd_line_no_system [of cmd opts args options_init] assms(1) by simp
  moreover have "System cmd \<notin> set tr2" for cmd
    using get_dev_rx_tx_no_system [of cmd "interface options" src] assms(2) by simp
  ultimately have "\<forall>cmd. System cmd \<notin> set (fst (main opts args src))"
    by (simp add: m)
  with name m show ?thesis
    by (simp add: decimal_value_show_dec)
qed


lemma parse_no_limits:
  "parse_cmd_line [] [''eth0'', ''echo over''] options_init =
     ([], Inr \<lparr>max_up = 0, max_down = 0, max_total = 0,
               interface = Some ''eth0'', action = Some ''echo over''\<rparr>)"
  by (simp add: eval_defs)

lemma read_500_300:
  "get_dev_rx_tx (Some ''eth0'') (Some (''eth0: 500 0 0 0 0 0 0 0 300 0 0 0 0 0 0 0'' @ NL)) =
     ([Fopen NETFILE True, Fgets, Fclose], Inr (500, 300))"
  by (simp add: eval_defs)

theorem no_threshold_mode_prints_status_witness:
  "main [] [''eth0'', ''echo over''] (Some (''eth0: 500 0 0 0 0 0 0 0 300 0 0 0 0 0 0 0'' @ NL)) =
     ([Fopen NETFILE True, Fgets, Fclose,
       Printf (''Interface eth0: Down: 500, Up: 300'' @ NL)], Exit 0)"
proof -
  let ?options = "\<lparr>max_up = 0, max_down = 0, max_total = 0,
                   interface = Some ''eth0'', action = Some ''echo over''\<rparr>"
  have unset: "max_up ?options = 0 \<and> max_down ?options = 0 \<and> max_total ?options = 0"
    by simp
  have r: "get_dev_rx_tx (interface ?options)
             (Some (''eth0: 500 0 0 0 0 0 0 0 300 0 0 0 0 0 0 0'' @ NL)) =
           ([Fopen NETFILE True, Fgets, Fclose], Inr (500, 300))"
    using read_500_300 by simp
  show ?thesis
    using no_threshold_mode_prints_status [OF parse_no_limits r unset]
    by (simp add: show_dec.simps digit_char_def NL_def char_of_eq_iff)
qed


text \<open>
  C6 as stated fails.  With \<open>max_total = 1\<close> and the sample \<^verbatim>\<open>bytes_rx = 1\<close>,
  \<^verbatim>\<open>bytes_tx = 2^64 - 1\<close> the exact sum is \<open>2^64\<close>, above the limit, but the program's sum
  wraps to 0 and the action is not triggered.
\<close>

theorem total_sum_wraps_counterexample:
  "unat (- 1 :: llu) + unat (1 :: llu) = 2 ^ 64 \<and>
   unat (max_total (options_init\<lparr>max_total := 1\<rparr>)) = 1 \<and>
   evaluate_bytes (options_init\<lparr>max_total := 1\<rparr>) 1 (- 1) = ([], Inr ())"
  by (simp add: evaluate_bytes_def options_init_def unsigned_minus_1_eq_mask mask_eq_exp_minus_1)

text \<open>
  C6 amended.  The sum for the combined condition is computed modulo \<open>2^64\<close>.  With only
  \<open>max_total\<close> set, the evaluator triggers the action exactly when
  \<open>(bytes_tx + bytes_rx) mod 2^64\<close> exceeds the limit, and does nothing otherwise; this
  agrees with the exact comparison whenever the exact sum is below \<open>2^64\<close>.
\<close>

theorem total_condition_modulo_2_64:
  assumes "max_up options = 0" and "max_down options = 0" and "max_total options \<noteq> 0"
  shows "(evaluate_bytes options bytes_rx bytes_tx = perform_action options \<longleftrightarrow>
            unat (max_total options) < (unat bytes_tx + unat bytes_rx) mod 2 ^ 64) \<and>
         (evaluate_bytes options bytes_rx bytes_tx \<noteq> perform_action options \<longrightarrow>
            evaluate_bytes options bytes_rx bytes_tx = ([], Inr ())) \<and>
         (unat bytes_tx + unat bytes_rx < 2 ^ 64 \<longrightarrow>
            (evaluate_bytes options bytes_rx bytes_tx = perform_action options \<longleftrightarrow>
               unat (max_total options) < unat bytes_tx + unat bytes_rx))"
proof -
  have sum: "unat (bytes_tx + bytes_rx) = (unat bytes_tx + unat bytes_rx) mod 2 ^ 64"
    by (simp add: unat_word_ariths)
  have ev: "evaluate_bytes options bytes_rx bytes_tx =
          (if unat (max_total options) < unat (bytes_tx + bytes_rx)
           then perform_action options else ([], Inr ()))"
    using assms
    by (simp add: evaluate_bytes_def word_greater_zero_iff word_less_nat_alt [of "max_total options"])
  have ne: "perform_action options \<noteq> ([], Inr ())"
    by (simp add: perform_action_def)
  have small: "unat bytes_tx + unat bytes_rx < 2 ^ 64 \<Longrightarrow>
      unat (bytes_tx + bytes_rx) = unat bytes_tx + unat bytes_rx"
    by (simp only: sum mod_less)
  show ?thesis
    unfolding ev using ne small by (auto simp only: sum [symmetric] split: if_splits)
qed

theorem total_condition_modulo_2_64_witness:
  "evaluate_bytes (options_init\<lparr>max_total := 100\<rparr>) 60 41 =
     perform_action (options_init\<lparr>max_total := 100\<rparr>) \<and>
   evaluate_bytes (options_init\<lparr>max_total := 100\<rparr>) 50 50 = ([], Inr ())"
  using total_condition_modulo_2_64 [of "options_init\<lparr>max_total := 100\<rparr>" 60 41]
    total_condition_modulo_2_64 [of "options_init\<lparr>max_total := 100\<rparr>" 50 50]
  by (simp add: options_init_def perform_action_def)


section \<open>Command line\<close>

text \<open>
  C7 as stated fails in its last part.  After \<^verbatim>\<open>-u 10 -u abc\<close> the upload limit is
  still 10: the diagnostic is printed and parsing goes on, but the field is not reset.
\<close>

theorem invalid_limit_keeps_earlier_value_counterexample:
  "parse_cmd_line [(opt_code CHR ''u'', ''10''), (opt_code CHR ''u'', ''abc'')] [''eth0'']
     options_init =
     ([Printf (''Invalid argument for max upload'' @ NL)],
      Inr \<lparr>max_up = 10, max_down = 0, max_total = 0, interface = Some ''eth0'', action = None\<rparr>)"
  by (simp add: eval_defs)

text \<open>
  C7 amended.  An option \<^verbatim>\<open>-u\<close>, \<^verbatim>\<open>-d\<close> or \<^verbatim>\<open>-t\<close> whose argument does not parse is
  not fatal: the loop prints its diagnostic and goes on with the next option, and the
  options, among them the field the argument was meant for, are as they were before.
\<close>

theorem invalid_limit_is_not_fatal:
  "(fst (get_bytes_formatted optarg (max_up options)) = 0 \<longrightarrow>
      getopt_loop ((opt_code CHR ''u'', optarg) # later) options =
        and_then (printf (''Invalid argument for max upload'' @ NL))
          (\<lambda>_. getopt_loop later options)) \<and>
   (fst (get_bytes_formatted optarg (max_down options)) = 0 \<longrightarrow>
      getopt_loop ((opt_code CHR ''d'', optarg) # later) options =
        and_then (printf (''Invalid argument for max download'' @ NL))
          (\<lambda>_. getopt_loop later options)) \<and>
   (fst (get_bytes_formatted optarg (max_total options)) = 0 \<longrightarrow>
      getopt_loop ((opt_code CHR ''t'', optarg) # later) options =
        and_then (printf (''Invalid argument for max download'' @ NL))
          (\<lambda>_. getopt_loop later options))"
  by (auto simp: opt_code_def dest!: get_bytes_formatted_failure)

theorem invalid_limit_is_not_fatal_witness:
  "getopt_loop [(opt_code CHR ''u'', ''abc'')] (options_init\<lparr>max_up := 10\<rparr>) =
     ([Printf (''Invalid argument for max upload'' @ NL)], Inr (options_init\<lparr>max_up := 10\<rparr>)) \<and>
   getopt_loop [(opt_code CHR ''d'', ''abc'')] (options_init\<lparr>max_up := 10\<rparr>) =
     ([Printf (''Invalid argument for max download'' @ NL)], Inr (options_init\<lparr>max_up := 10\<rparr>)) \<and>
   getopt_loop [(opt_code CHR ''t'', ''abc'')] (options_init\<lparr>max_up := 10\<rparr>) =
     ([Printf (''Invalid argument for max download'' @ NL)], Inr (options_init\<lparr>max_up := 10\<rparr>))"
proof -
  have f: "fst (get_bytes_formatted ''abc'' b) = 0" for b
    by (simp add: eval_defs)
  show ?thesis
    using invalid_limit_is_not_fatal [of "''abc''" "options_init\<lparr>max_up := 10\<rparr>" "[]"]
    by (simp add: f and_then_def printf_def)
qed


text \<open>How the option loop can stop the process: only by \<^verbatim>\<open>-h\<close> or \<^verbatim>\<open>-v\<close>, with status 0.\<close>

lemma getopt_loop_stop:
  assumes "getopt_loop opts options = (tr, Inl h)"
  shows "h = Exit 0 \<and> (\<exists>p \<in> set opts. fst p = opt_code CHR ''h'' \<or> fst p = opt_code CHR ''v'')"
  using assms
proof (induction opts arbitrary: options tr)
  case Nil
  then show ?case by simp
next
  case (Cons p opts)
  obtain opt optarg where p: "p = (opt, optarg)" by (cases p)
  have step: "and_then m (\<lambda>_. getopt_loop opts options') = (tr, Inl h) \<Longrightarrow> snd m = Inr () \<Longrightarrow>
      \<exists>tr'. getopt_loop opts options' = (tr', Inl h)" for m :: "unit outcome" and options'
    by (cases m) (auto simp: and_then_def split: prod.splits)
  consider (u) "opt = opt_code CHR ''u''" | (d) "opt = opt_code CHR ''d''"
    | (t) "opt = opt_code CHR ''t''" | (v) "opt = opt_code CHR ''v''"
    | (h) "opt = opt_code CHR ''h''"
    | (other) "opt \<noteq> opt_code CHR ''u''" "opt \<noteq> opt_code CHR ''d''" "opt \<noteq> opt_code CHR ''t''"
        "opt \<noteq> opt_code CHR ''v''" "opt \<noteq> opt_code CHR ''h''"
    by blast
  then show ?case
  proof cases
    case u
    obtain ok b where g: "get_bytes_formatted optarg (max_up options) = (ok, b)"
      by (cases "get_bytes_formatted optarg (max_up options)")
    from Cons.prems have "\<exists>tr'. getopt_loop opts (options\<lparr>max_up := b\<rparr>) = (tr', Inl h)"
      by (intro step [where m = "if ok = 0 then printf (''Invalid argument for max upload'' @ NL) else ([], Inr ())"])
        (simp_all add: p u g printf_def)
    with Cons.IH show ?thesis by auto
  next
    case d
    obtain ok b where g: "get_bytes_formatted optarg (max_down options) = (ok, b)"
      by (cases "get_bytes_formatted optarg (max_down options)")
    from Cons.prems have "\<exists>tr'. getopt_loop opts (options\<lparr>max_down := b\<rparr>) = (tr', Inl h)"
      by (intro step [where m = "if ok = 0 then printf (''Invalid argument for max download'' @ NL) else ([], Inr ())"])
        (simp_all add: p d g printf_def opt_code_def)
    with Cons.IH show ?thesis by auto
  next
    case t
    obtain ok b where g: "get_bytes_formatted optarg (max_total options) = (ok, b)"
      by (cases "get_bytes_formatted optarg (max_total options)")
    from Cons.prems have "\<exists>tr'. getopt_loop opts (options\<lparr>max_total := b\<rparr>) = (tr', Inl h)"
      by (intro step [where m = "if ok = 0 then printf (''Invalid argument for max download'' @ NL) else ([], Inr ())"])
        (simp_all add: p t g printf_def opt_code_def)
    with Cons.IH show ?thesis by auto
  next
    case v
    with Cons.prems show ?thesis
      by (simp add: p opt_code_def display_version_def and_then_def exit_with_def)
  next
    case h
    with Cons.prems show ?thesis
      by (simp add: p opt_code_def display_help_def and_then_def exit_with_def)
  next
    case other
    from Cons.prems have "\<exists>tr'. getopt_loop opts options = (tr', Inl h)"
      by (intro step [where m = "printf (''?? getopt returned character code 0'' @ show_oct (nat (opt mod 2 ^ 32)) @ '' ??'' @ NL)"])
        (simp_all add: p other printf_def)
    with Cons.IH show ?thesis by auto
  qed
qed

text \<open>
  C9 as stated fails.  The command line \<^verbatim>\<open>throttler ""\<close> has no non-empty interface
  name, yet the interface field is set to the empty string and the reader runs with it
  (and finds a line that starts with a colon).
\<close>

theorem empty_interface_reaches_reader_counterexample:
  "parse_cmd_line [] [''''] options_init = ([], Inr (options_init\<lparr>interface := Some ''''\<rparr>)) \<and>
   main [] [''''] (Some ('': 1 2 3 4 5 6 7 8 9'' @ NL)) =
     ([Fopen NETFILE True, Fgets, Fclose, Printf (''Interface : Down: 1, Up: 9'' @ NL)], Exit 0)"
  by (simp add: main_def evaluate_bytes_def eval_defs show_dec.simps digit_char_def char_of_eq_iff)

text \<open>
  C9 amended.  When \<^verbatim>\<open>parse_cmd_line\<close> returns, the interface field is set: it is the
  first non-option argument, which may be the empty string.  On a command line with no
  non-option argument the run only prints, so the reader is never called, and it ends
  with the missing-interface diagnostic and status 1, unless \<^verbatim>\<open>-h\<close> or \<^verbatim>\<open>-v\<close> ended
  it with status 0 before.
\<close>

theorem interface_set_before_reader:
  "(\<forall>tr options. parse_cmd_line opts args options_init = (tr, Inr options) \<longrightarrow>
      args \<noteq> [] \<and> interface options = Some (hd args)) \<and>
   (args = [] \<longrightarrow>
      set (fst (main opts args src)) \<subseteq> range Printf \<and>
      (snd (main opts args src) = Exit 1 \<and>
         last (fst (main opts args src)) =
           Printf (''Missing interface specifier - call with --help to get information'' @ NL) \<or>
       snd (main opts args src) = Exit 0 \<and>
         (\<exists>p \<in> set opts. fst p = opt_code CHR ''h'' \<or> fst p = opt_code CHR ''v'')))"
proof (intro conjI allI impI)
  fix tr options
  assume "parse_cmd_line opts args options_init = (tr, Inr options)"
  then show "args \<noteq> []" and "interface options = Some (hd args)"
    using parse_cmd_line_interface by blast+
next
  assume none: "args = []"
  obtain tr r where g: "getopt_loop opts options_init = (tr, r)"
    by (cases "getopt_loop opts options_init")
  let ?missing = "Printf (''Missing interface specifier - call with --help to get information'' @ NL)"
  have parse: "parse_cmd_line opts args options_init =
      (case r of Inl h \<Rightarrow> (tr, Inl h) | Inr _ \<Rightarrow> (tr @ [?missing], Inl (Exit 1)))"
    by (simp add: parse_cmd_line_def none g and_then_def printf_def exit_with_def split: sum.splits)
  have m: "main opts args src = (fst (parse_cmd_line opts args options_init),
      case r of Inl h \<Rightarrow> h | Inr _ \<Rightarrow> Exit 1)"
    by (simp add: main_def parse and_then_def split: sum.splits)
  show "set (fst (main opts args src)) \<subseteq> range Printf"
    using parse_cmd_line_trace [of opts args options_init] by (simp add: m)
  show "snd (main opts args src) = Exit 1 \<and> last (fst (main opts args src)) = ?missing \<or>
        snd (main opts args src) = Exit 0 \<and>
          (\<exists>p \<in> set opts. fst p = opt_code CHR ''h'' \<or> fst p = opt_code CHR ''v'')"
  proof (cases r)
    case (Inl h)
    with getopt_loop_stop [of opts options_init tr h] g show ?thesis
      by (simp add: m)
  next
    case (Inr options)
    then show ?thesis by (simp add: m parse)
  qed
qed

theorem interface_set_before_reader_witness:
  "parse_cmd_line [] [''eth0'', ''echo over''] options_init =
     ([], Inr \<lparr>max_up = 0, max_down = 0, max_total = 0,
               interface = Some ''eth0'', action = Some ''echo over''\<rparr>) \<and>
   interface \<lparr>max_up = 0, max_down = 0, max_total = 0,
               interface = Some ''eth0'', action = Some ''echo over''\<rparr> = Some ''eth0'' \<and>
   set (fst (main [] [] None)) \<subseteq> range Printf \<and>
   snd (main [] [] None) = Exit 1 \<and>
   last (fst (main [] [] None)) =
     Printf (''Missing interface specifier - call with --help to get information'' @ NL)"
proof -
  have "interface \<lparr>max_up = 0, max_down = 0, max_total = 0,
               interface = Some ''eth0'', action = Some ''echo over''\<rparr> =
        Some (hd [''eth0'', ''echo over''])"
    using interface_set_before_reader [of "[]" "[''eth0'', ''echo over'']" None] parse_no_limits
    by blast
  moreover have "set (fst (main [] [] None)) \<subseteq> range Printf \<and>
      (snd (main [] [] None) = Exit 1 \<and>
         last (fst (main [] [] None)) =
           Printf (''Missing interface specifier - call with --help to get information'' @ NL) \<or>
       snd (main [] [] None) = Exit 0 \<and>
         (\<exists>p \<in> set ([] :: getopt_ret list). fst p = opt_code CHR ''h'' \<or> fst p = opt_code CHR ''v''))"
    using interface_set_before_reader [of "[]" "[]" None] by blast
  ultimately show ?thesis
    using parse_no_limits by simp
qed


section \<open>Byte-quantity parser\<close>

lemma isdigit_not_special:
  assumes "isdigit c"
  shows "\<not> isspace c" and "c \<noteq> CHR ''-''" and "c \<noteq> CHR ''+''" and "c \<noteq> CHR 0x00"
    and "c \<noteq> CHR 0x0A" and "c \<noteq> CHR '':''" and "c \<noteq> CHR ''%''"
  using assms by (auto simp: isdigit_def isspace_def)

lemma c_str_no_nul: "CHR 0x00 \<notin> set s \<Longrightarrow> c_str s = s"
  by (simp add: c_str_def takeWhile_eq_all_conv) metis

lemma c_str_digits: "\<forall>c \<in> set ds. isdigit c \<Longrightarrow> c_str ds = ds"
  by (rule c_str_no_nul) (auto dest: isdigit_not_special(4))

lemma conv_llu_skip_space:
  assumes "\<forall>c \<in> set ws. isspace c"
  shows "conv_llu (ws @ s) = conv_llu s"
  using assms by (simp add: conv_llu_def dropWhile_append)

lemma conv_llu_digits:
  assumes "ds \<noteq> []" and "\<forall>c \<in> set ds. isdigit c" and "rest = [] \<or> \<not> isdigit (hd rest)"
  shows "conv_llu (ds @ rest) = Converted (strtoull_value False (decimal_value ds)) rest"
proof -
  obtain d ds' where ds: "ds = d # ds'"
    using assms(1) by (cases ds) auto
  have d: "isdigit d"
    using assms(2) ds by simp
  have tk: "takeWhile isdigit (ds @ rest) = ds"
    using assms(2,3) by (cases rest) (auto simp: takeWhile_append1 takeWhile_append2)
  have dr: "dropWhile isdigit (ds @ rest) = rest"
    using assms(2,3) by (cases rest) (auto simp: dropWhile_append)
  have "dropWhile isspace (ds @ rest) = ds @ rest"
    using isdigit_not_special(1) [OF d] by (simp add: ds)
  then show ?thesis
    using isdigit_not_special(2,3) [OF d] tk dr assms(1)
    by (simp add: conv_llu_def ds [symmetric]) (simp add: ds)
qed

lemma strtoull_value_small: "n < 2 ^ 64 \<Longrightarrow> strtoull_value False n = word_of_nat n"
  by (simp add: strtoull_value_def)

lemma get_bytes_formatted_digits:
  assumes "ds \<noteq> []" and "\<forall>c \<in> set ds. isdigit c"
  shows "get_bytes_formatted ds bytes = (1, strtoull_value False (decimal_value ds))"
proof -
  have "conv_llu (ds @ []) = Converted (strtoull_value False (decimal_value ds)) []"
    by (rule conv_llu_digits [OF assms]) simp
  then have "conv_llu (c_str ds) = Converted (strtoull_value False (decimal_value ds)) []"
    by (simp only: c_str_digits [OF assms(2)] append_Nil2)
  then show ?thesis
    by (simp only: get_bytes_formatted_eq conversion.case list.case)
qed

lemma get_bytes_formatted_digits_unit:
  assumes "ds \<noteq> []" and "\<forall>c \<in> set ds. isdigit c" and "\<not> isdigit u" and "u \<noteq> CHR 0x00"
  shows "get_bytes_formatted (ds @ [u]) bytes =
           (1, strtoull_value False (decimal_value ds) * get_unit_factor u)"
proof -
  have "CHR 0x00 \<notin> set (ds @ [u])"
    using assms(2,4) isdigit_not_special(4) by fastforce
  then have "c_str (ds @ [u]) = ds @ [u]"
    by (rule c_str_no_nul)
  moreover have "conv_llu (ds @ [u]) = Converted (strtoull_value False (decimal_value ds)) [u]"
    by (rule conv_llu_digits [OF assms(1,2)]) (simp add: assms(3))
  ultimately have "conv_llu (c_str (ds @ [u])) =
      Converted (strtoull_value False (decimal_value ds)) [u]"
    by (simp only:)
  then show ?thesis
    by (simp only: get_bytes_formatted_eq conversion.case list.case)
qed

lemma get_bytes_formatted_digits_nul:
  assumes "\<forall>c \<in> set ds. isdigit c"
  shows "get_bytes_formatted (ds @ CHR 0x00 # junk) bytes = get_bytes_formatted ds bytes"
proof -
  have nn: "\<forall>c \<in> set ds. c \<noteq> CHR 0x00"
    using assms isdigit_not_special(4) by blast
  then have "takeWhile (\<lambda>c. c \<noteq> CHR 0x00) (ds @ CHR 0x00 # junk) = ds"
    by (simp add: takeWhile_append2)
  moreover have "takeWhile (\<lambda>c. c \<noteq> CHR 0x00) ds = ds"
    using nn by (simp add: takeWhile_eq_all_conv)
  ultimately have "c_str (ds @ CHR 0x00 # junk) = c_str ds"
    by (simp only: c_str_def)
  then show ?thesis
    by (simp only: get_bytes_formatted_eq)
qed

lemma suffix_not_digit:
  assumes "u \<in> {CHR ''k'', CHR ''K'', CHR ''m'', CHR ''M'', CHR ''g'', CHR ''G'', CHR ''t'', CHR ''T''}"
  shows "\<not> isdigit u" and "u \<noteq> CHR 0x00"
  using assms by (auto simp: isdigit_def)

lemma get_unit_factor_values:
  "u \<in> {CHR ''k'', CHR ''K''} \<Longrightarrow> get_unit_factor u = 2 ^ 10"
  "u \<in> {CHR ''m'', CHR ''M''} \<Longrightarrow> get_unit_factor u = 2 ^ 20"
  "u \<in> {CHR ''g'', CHR ''G''} \<Longrightarrow> get_unit_factor u = 2 ^ 30"
  "u \<in> {CHR ''t'', CHR ''T''} \<Longrightarrow> get_unit_factor u = 2 ^ 40"
  by (auto simp: get_unit_factor_def)

text \<open>
  C2.  For a non-empty string of decimal digits whose value fits 64 bits, alone or
  followed by one suffix character, the parser succeeds (returns 1) and stores the
  value, multiplied by \<open>2^10\<close> for \<^verbatim>\<open>k\<close>/\<^verbatim>\<open>K\<close>, \<open>2^20\<close> for \<^verbatim>\<open>m\<close>/\<^verbatim>\<open>M\<close>, \<open>2^30\<close> for
  \<^verbatim>\<open>g\<close>/\<^verbatim>\<open>G\<close> and \<open>2^40\<close> for \<^verbatim>\<open>t\<close>/\<^verbatim>\<open>T\<close>.  The product is the program's unsigned
  64-bit product: it is the exact product whenever that is below \<open>2^64\<close>.
\<close>

theorem byte_quantity_unit_factor:
  assumes "ds \<noteq> []" and "\<forall>c \<in> set ds. isdigit c" and "decimal_value ds < 2 ^ 64"
  shows "get_bytes_formatted ds bytes = (1, word_of_nat (decimal_value ds)) \<and>
         (u \<in> {CHR ''k'', CHR ''K''} \<longrightarrow>
            get_bytes_formatted (ds @ [u]) bytes = (1, word_of_nat (decimal_value ds * 2 ^ 10))) \<and>
         (u \<in> {CHR ''m'', CHR ''M''} \<longrightarrow>
            get_bytes_formatted (ds @ [u]) bytes = (1, word_of_nat (decimal_value ds * 2 ^ 20))) \<and>
         (u \<in> {CHR ''g'', CHR ''G''} \<longrightarrow>
            get_bytes_formatted (ds @ [u]) bytes = (1, word_of_nat (decimal_value ds * 2 ^ 30))) \<and>
         (u \<in> {CHR ''t'', CHR ''T''} \<longrightarrow>
            get_bytes_formatted (ds @ [u]) bytes = (1, word_of_nat (decimal_value ds * 2 ^ 40))) \<and>
         (\<forall>k. decimal_value ds * 2 ^ k < 2 ^ 64 \<longrightarrow>
            unat (word_of_nat (decimal_value ds * 2 ^ k) :: llu) = decimal_value ds * 2 ^ k)"
proof -
  have plain: "get_bytes_formatted ds bytes = (1, word_of_nat (decimal_value ds))"
    using get_bytes_formatted_digits [OF assms(1,2)] strtoull_value_small [OF assms(3)] by simp
  have unit: "get_bytes_formatted (ds @ [u]) bytes =
                (1, word_of_nat (decimal_value ds * 2 ^ k))"
    if "\<not> isdigit u" and "u \<noteq> CHR 0x00" and "get_unit_factor u = 2 ^ k" for k
    using get_bytes_formatted_digits_unit [OF assms(1,2) that(1,2)] that(3)
      strtoull_value_small [OF assms(3)] by simp
  have exact: "unat (word_of_nat n :: llu) = n" if "n < 2 ^ 64" for n
    using that by (simp add: unat_of_nat)
  have k: "u \<in> {CHR ''k'', CHR ''K''} \<Longrightarrow>
      get_bytes_formatted (ds @ [u]) bytes = (1, word_of_nat (decimal_value ds * 2 ^ 10))"
    using suffix_not_digit [of u] by (intro unit) (auto simp: get_unit_factor_values)
  have m: "u \<in> {CHR ''m'', CHR ''M''} \<Longrightarrow>
      get_bytes_formatted (ds @ [u]) bytes = (1, word_of_nat (decimal_value ds * 2 ^ 20))"
    using suffix_not_digit [of u] by (intro unit) (auto simp: get_unit_factor_values)
  have g: "u \<in> {CHR ''g'', CHR ''G''} \<Longrightarrow>
      get_bytes_formatted (ds @ [u]) bytes = (1, word_of_nat (decimal_value ds * 2 ^ 30))"
    using suffix_not_digit [of u] by (intro unit) (auto simp: get_unit_factor_values)
  have t: "u \<in> {CHR ''t'', CHR ''T''} \<Longrightarrow>
      get_bytes_formatted (ds @ [u]) bytes = (1, word_of_nat (decimal_value ds * 2 ^ 40))"
    using suffix_not_digit [of u] by (intro unit) (auto simp: get_unit_factor_values)
  show ?thesis
  proof (intro conjI impI allI)
    show "get_bytes_formatted ds bytes = (1, word_of_nat (decimal_value ds))"
      by (rule plain)
  qed (simp_all only: k m g t exact)
qed

theorem byte_quantity_unit_factor_witness:
  "get_bytes_formatted ''1024'' 0 = (1, 1024) \<and>
   get_bytes_formatted ''10k'' 0 = (1, 10240) \<and>
   get_bytes_formatted ''3M'' 0 = (1, 3145728) \<and>
   get_bytes_formatted ''2g'' 0 = (1, 2147483648) \<and>
   get_bytes_formatted ''1T'' 0 = (1, 1099511627776)"
proof -
  have d: "decimal_value ''1024'' = 1024" "decimal_value ''10'' = 10" "decimal_value ''3'' = 3"
    "decimal_value ''2'' = 2" "decimal_value ''1'' = 1"
    by (simp_all add: decimal_value_def digit_value_def)
  have "get_bytes_formatted ''1024'' 0 = (1, 1024)"
    using byte_quantity_unit_factor [where ds = "''1024''" and bytes = 0] by (simp add: d isdigit_def)
  moreover have "get_bytes_formatted ''10k'' 0 = (1, 10240)"
    using byte_quantity_unit_factor [where ds = "''10''" and bytes = 0 and u = "CHR ''k''"]
    by (simp add: d isdigit_def)
  moreover have "get_bytes_formatted ''3M'' 0 = (1, 3145728)"
    using byte_quantity_unit_factor [where ds = "''3''" and bytes = 0 and u = "CHR ''M''"]
    by (simp add: d isdigit_def)
  moreover have "get_bytes_formatted ''2g'' 0 = (1, 2147483648)"
    using byte_quantity_unit_factor [where ds = "''2''" and bytes = 0 and u = "CHR ''g''"]
    by (simp add: d isdigit_def)
  moreover have "get_bytes_formatted ''1T'' 0 = (1, 1099511627776)"
    using byte_quantity_unit_factor [where ds = "''1''" and bytes = 0 and u = "CHR ''T''"]
    by (simp add: d isdigit_def)
  ultimately show ?thesis by blast
qed


lemma begins_with_numberI:
  assumes "s = ws @ sg @ d # rest" and "\<forall>c \<in> set ws. isspace c"
    and "sg = [] \<or> sg = ''+'' \<or> sg = ''-''" and "isdigit d"
  shows "begins_with_number s"
  unfolding begins_with_number_def using assms by blast

lemma conv_llu_signed_digit:
  assumes "sg = [] \<or> sg = ''+'' \<or> sg = ''-''" and "isdigit d"
  shows "\<exists>v r. conv_llu (sg @ d # rest) = Converted v r"
proof -
  have tk: "takeWhile isdigit (d # rest) \<noteq> []"
    using assms(2) by simp
  from assms(1) consider "sg = []" | "sg = ''+''" | "sg = ''-''" by blast
  then show ?thesis
  proof cases
    case 1
    then show ?thesis
      using isdigit_not_special(1,2,3) [OF assms(2)] assms(2)
      by (simp add: conv_llu_def)
  next
    case 2
    then show ?thesis
      using assms(2) by (simp add: conv_llu_def isspace_def)
  next
    case 3
    then show ?thesis
      using assms(2) by (simp add: conv_llu_def isspace_def)
  qed
qed

lemma conv_llu_converted_iff:
  "(\<exists>v r. conv_llu s = Converted v r) \<longleftrightarrow> begins_with_number s"
proof
  assume "begins_with_number s"
  then obtain ws sg d rest where s: "s = ws @ sg @ d # rest"
    and ws: "\<forall>c \<in> set ws. isspace c" and sg: "sg = [] \<or> sg = ''+'' \<or> sg = ''-''"
    and d: "isdigit d"
    unfolding begins_with_number_def by blast
  have "conv_llu s = conv_llu (sg @ d # rest)"
    unfolding s by (rule conv_llu_skip_space [OF ws])
  with conv_llu_signed_digit [OF sg d, of rest] show "\<exists>v r. conv_llu s = Converted v r"
    by simp
next
  assume "\<exists>v r. conv_llu s = Converted v r"
  then obtain v r where conv: "conv_llu s = Converted v r" by blast
  let ?ws = "takeWhile isspace s"
  have ws: "\<forall>c \<in> set ?ws. isspace c"
    by (auto dest: set_takeWhileD)
  obtain c cs where t: "dropWhile isspace s = c # cs"
    using conv by (cases "dropWhile isspace s") (simp_all add: conv_llu_def)
  have s: "s = ?ws @ c # cs"
    using t takeWhile_dropWhile_id [of isspace s] by simp
  show "begins_with_number s"
  proof (cases "c = CHR ''-'' \<or> c = CHR ''+''")
    case True
    with conv t have "takeWhile isdigit cs \<noteq> []"
      by (auto simp: conv_llu_def Let_def split: if_splits)
    then obtain d rest where cs: "cs = d # rest" and d: "isdigit d"
      by (cases cs) (auto split: if_splits)
    have "s = ?ws @ [c] @ d # rest"
      using s cs by simp
    with ws True d show ?thesis
      unfolding begins_with_number_def by blast
  next
    case False
    with conv t have "takeWhile isdigit (c # cs) \<noteq> []"
      by (auto simp: conv_llu_def Let_def split: if_splits)
    then have d: "isdigit c"
      by (auto split: if_splits)
    have "s = ?ws @ [] @ c # cs"
      using s by simp
    with ws d show ?thesis
      unfolding begins_with_number_def by blast
  qed
qed

lemma get_bytes_formatted_result:
  "(fst (get_bytes_formatted arg bytes) = 0 \<longleftrightarrow> \<not> begins_with_number (c_str arg)) \<and>
   (fst (get_bytes_formatted arg bytes) = 0 \<or> fst (get_bytes_formatted arg bytes) = 1)"
proof (cases "conv_llu (c_str arg)")
  case Input_Failure
  with conv_llu_converted_iff [of "c_str arg"] show ?thesis
    by (simp add: get_bytes_formatted_eq)
next
  case Matching_Failure
  with conv_llu_converted_iff [of "c_str arg"] show ?thesis
    by (simp add: get_bytes_formatted_eq)
next
  case (Converted v r)
  with conv_llu_converted_iff [of "c_str arg"] show ?thesis
    by (simp add: get_bytes_formatted_eq split: list.splits)
qed

text \<open>
  C3 as stated fails.  The string \<^verbatim>\<open>-5\<close> does not begin with an unsigned integer, yet
  the parser reports success: \<^verbatim>\<open>%llu\<close> accepts a sign and negates in the unsigned type,
  so the stored value is \<open>2^64 - 5\<close>.
\<close>

theorem negative_number_accepted_counterexample:
  "\<not> isdigit (hd ''-5'') \<and> get_bytes_formatted ''-5'' 0 = (1, 18446744073709551611)"
  by (simp add: eval_defs)

text \<open>
  C3 amended.  The parser reports invalid input (returns 0) exactly when the string,
  after leading white space and an optional sign, does not continue with a decimal
  digit, and returns 1 otherwise.  Every string that begins with a decimal digit is
  accepted.  A character after the digits that is none of the eight suffix letters is
  read and leaves the value as it is without the character.
\<close>

theorem byte_quantity_invalid_iff_no_number:
  "(fst (get_bytes_formatted arg bytes) = 0 \<longleftrightarrow> \<not> begins_with_number (c_str arg)) \<and>
   (fst (get_bytes_formatted arg bytes) \<noteq> 0 \<longrightarrow> fst (get_bytes_formatted arg bytes) = 1) \<and>
   (ds \<noteq> [] \<and> (\<forall>c \<in> set ds. isdigit c) \<longrightarrow>
      fst (get_bytes_formatted (ds @ rest) bytes) = 1) \<and>
   (ds \<noteq> [] \<and> (\<forall>c \<in> set ds. isdigit c) \<and> \<not> isdigit u \<and>
    u \<notin> {CHR ''k'', CHR ''K'', CHR ''m'', CHR ''M'', CHR ''g'', CHR ''G'', CHR ''t'', CHR ''T''} \<longrightarrow>
      get_bytes_formatted (ds @ [u]) bytes = get_bytes_formatted ds bytes \<and>
      fst (get_bytes_formatted ds bytes) = 1)"
proof (intro conjI impI)
  show "fst (get_bytes_formatted arg bytes) = 0 \<longleftrightarrow> \<not> begins_with_number (c_str arg)"
    using get_bytes_formatted_result [of arg bytes] by (rule conjunct1)
  show "fst (get_bytes_formatted arg bytes) = 1" if "fst (get_bytes_formatted arg bytes) \<noteq> 0"
    using that get_bytes_formatted_result [of arg bytes] by auto
next
  assume a: "ds \<noteq> [] \<and> (\<forall>c \<in> set ds. isdigit c)"
  then obtain d ds' where ds: "ds = d # ds'" by (cases ds) auto
  have d: "isdigit d" using a ds by simp
  have "c_str (ds @ rest) = d # c_str (ds' @ rest)"
    using isdigit_not_special(4) [OF d] by (simp add: ds c_str_def)
  then have "c_str (ds @ rest) = [] @ [] @ d # c_str (ds' @ rest)" by simp
  then have "begins_with_number (c_str (ds @ rest))"
    by (rule begins_with_numberI) (simp_all add: d)
  with get_bytes_formatted_result [of "ds @ rest" bytes]
  show "fst (get_bytes_formatted (ds @ rest) bytes) = 1" by auto
next
  assume a: "ds \<noteq> [] \<and> (\<forall>c \<in> set ds. isdigit c) \<and> \<not> isdigit u \<and>
    u \<notin> {CHR ''k'', CHR ''K'', CHR ''m'', CHR ''M'', CHR ''g'', CHR ''G'', CHR ''t'', CHR ''T''}"
  then have one: "get_unit_factor u = 1"
    by (simp add: get_unit_factor_def)
  have plain: "get_bytes_formatted ds bytes = (1, strtoull_value False (decimal_value ds))"
    using a by (intro get_bytes_formatted_digits) simp_all
  show "get_bytes_formatted (ds @ [u]) bytes = get_bytes_formatted ds bytes"
  proof (cases "u = CHR 0x00")
    case True
    then show ?thesis
      using get_bytes_formatted_digits_nul [of ds "[]" bytes] a by simp
  next
    case False
    have "get_bytes_formatted (ds @ [u]) bytes =
            (1, strtoull_value False (decimal_value ds) * get_unit_factor u)"
      using a False by (intro get_bytes_formatted_digits_unit) simp_all
    then show ?thesis
      by (simp add: one plain)
  qed
  show "fst (get_bytes_formatted ds bytes) = 1"
    by (simp add: plain)
qed

theorem byte_quantity_invalid_iff_no_number_witness:
  "\<not> begins_with_number (c_str ''abc'') \<and>
   fst (get_bytes_formatted ''abc'' 0) = 0 \<and>
   fst (get_bytes_formatted ''12'' 0) = 1 \<and>
   get_bytes_formatted ''12x'' 0 = (1, 12)"
proof -
  have abc: "fst (get_bytes_formatted ''abc'' 0) = 0"
    by (simp add: eval_defs)
  have twelve: "get_bytes_formatted ''12'' 0 = (1, 12)"
    by (simp add: eval_defs)
  have "\<not> begins_with_number (c_str ''abc'')"
    using byte_quantity_invalid_iff_no_number [where arg = "''abc''" and bytes = 0] abc by blast
  moreover have "get_bytes_formatted (''12'' @ [CHR ''x'']) 0 = get_bytes_formatted ''12'' 0 \<and>
      fst (get_bytes_formatted ''12'' 0) = 1"
    using byte_quantity_invalid_iff_no_number [where ds = "''12''" and bytes = 0 and u = "CHR ''x''"]
    by (simp add: isdigit_def)
  ultimately show ?thesis
    using abc twelve by simp
qed


section \<open>Counter source reader\<close>

text \<open>
  The read loop calls \<^verbatim>\<open>fgets\<close> once for every buffer up to the first that matches, and
  once more at the end of the file when none does.
\<close>

lemma read_loop_eq:
  "read_loop format stream =
     (replicate (Suc (length (takeWhile (\<lambda>buf. fst (sscanf buf format) \<noteq> 2) (fgets_lines stream)))) Fgets,
      map_option (\<lambda>buf. snd (sscanf buf format))
        (find (\<lambda>buf. fst (sscanf buf format) = 2) (fgets_lines stream)))"
proof (induction format stream rule: read_loop.induct)
  case (1 format stream)
  show ?case
  proof (cases "fgets 256 stream")
    case None
    then show ?thesis
      by (simp add: read_loop.simps [of format stream] fgets_lines.simps [of stream])
  next
    case (Some p)
    obtain buf rest where p: "p = (buf, rest)" by (cases p)
    obtain n vals where sc: "sscanf buf format = (n, vals)" by (cases "sscanf buf format")
    show ?thesis
    proof (cases "n = 2")
      case True
      with Some p sc show ?thesis
        by (simp add: read_loop.simps [of format stream] fgets_lines.simps [of stream])
    next
      case False
      with 1 [OF Some p [symmetric] sc [symmetric]] Some p sc show ?thesis
        by (simp add: read_loop.simps [of format stream] fgets_lines.simps [of stream])
    qed
  qed
qed

lemma run_directives_count:
  "run_directives ds inp acc = (n, vals) \<Longrightarrow> n = int (length vals) \<or> (n = - 1 \<and> vals = [])"
  by (induction ds inp acc rule: run_directives.induct)
    (auto simp: input_failure_def matching_failure_def split: list.splits conversion.splits if_splits)

lemma run_directives_llu_only:
  assumes "\<forall>d \<in> set ds. d \<noteq> Conv_c False" and "set acc \<subseteq> range Val_llu"
  shows "set (snd (run_directives ds inp acc)) \<subseteq> range Val_llu"
  using assms
proof (induction ds inp acc rule: run_directives.induct)
  case (1 inp acc)
  then show ?case by simp
next
  case (2 ds inp acc)
  then show ?case by simp
next
  case (3 c ds inp acc)
  then show ?case
    by (cases inp) (simp_all add: input_failure_def matching_failure_def)
next
  case (4 suppress ds inp acc)
  show ?case
  proof (cases "conv_llu inp")
    case Input_Failure
    with 4 show ?thesis by (simp add: input_failure_def)
  next
    case Matching_Failure
    with 4 show ?thesis by (simp add: matching_failure_def)
  next
    case (Converted v rest)
    have "set (if suppress then acc else acc @ [Val_llu v]) \<subseteq> range Val_llu"
      using "4.prems"(2) by auto
    with "4.IH" [OF Converted] "4.prems"(1) Converted show ?thesis
      by simp
  qed
next
  case (5 suppress ds inp acc)
  show ?case
  proof (cases inp)
    case Nil
    with 5 show ?thesis by (simp add: input_failure_def)
  next
    case (Cons x xs)
    from "5.prems"(1) have sup: "suppress" by auto
    with "5.IH" [OF Cons] "5.prems" Cons show ?thesis
      by simp
  qed
next
  case (6 ds inp acc)
  then show ?case by (simp add: matching_failure_def)
qed

lemma parse_format_literal:
  "CHR ''%'' \<notin> set xs \<Longrightarrow>
   parse_format (xs @ ys) = map (\<lambda>c. if isspace c then White_Space else Ordinary c) xs @ parse_format ys"
  by (induction xs) auto

lemma parse_format_fields:
  "parse_format ('': %llu %*llu %*llu %*llu %*llu %*llu %*llu %*llu '' @
                 ''%llu %*llu %*llu %*llu %*llu %*llu %*llu %*llu'') =
     Ordinary CHR '':'' # concat (map (\<lambda>s. [White_Space, Conv_llu s])
       [False, True, True, True, True, True, True, True,
        False, True, True, True, True, True, True, True])"
  by (simp add: isspace_def)

lemma parse_dev_format:
  assumes "CHR ''%'' \<notin> set name"
  shows "parse_format (dev_format name) =
     White_Space # map (\<lambda>c. if isspace c then White_Space else Ordinary c) name @
     Ordinary CHR '':'' # concat (map (\<lambda>s. [White_Space, Conv_llu s])
       [False, True, True, True, True, True, True, True,
        False, True, True, True, True, True, True, True])"
proof -
  have "parse_format (dev_format name) =
      White_Space # parse_format (name @ ('': %llu %*llu %*llu %*llu %*llu %*llu %*llu %*llu '' @
                 ''%llu %*llu %*llu %*llu %*llu %*llu %*llu %*llu''))"
    by (simp add: dev_format_def isspace_def)
  then show ?thesis
    by (simp only: parse_format_literal [OF assms] parse_format_fields)
qed

lemma line_matches_values:
  assumes "CHR ''%'' \<notin> set name" and "line_matches name buf"
  shows "\<exists>rx tx. sscanf buf (dev_format name) = (2, [Val_llu rx, Val_llu tx])"
proof -
  obtain vals where sc: "sscanf buf (dev_format name) = (2, vals)"
    using assms(2) by (cases "sscanf buf (dev_format name)") (simp add: line_matches_def)
  then have run: "run_directives (parse_format (dev_format name)) (c_str buf) [] = (2, vals)"
    by (simp add: sscanf_def)
  have len: "length vals = 2"
    using run_directives_count [OF run] by auto
  have "\<forall>d \<in> set (parse_format (dev_format name)). d \<noteq> Conv_c False"
    unfolding parse_dev_format [OF assms(1)] by auto
  from run_directives_llu_only [OF this, of "[]" "c_str buf"] run
  have "\<forall>v \<in> set vals. \<exists>w. v = Val_llu w"
    by auto
  with len obtain rx tx where "vals = [Val_llu rx, Val_llu tx]"
    by (cases vals; cases "tl vals") (auto simp: length_Suc_conv)
  with sc show ?thesis by simp
qed

lemma get_dev_rx_tx_found:
  assumes "CHR ''%'' \<notin> set name" and "length name \<le> 31"
    and "find (line_matches name) (fgets_lines contents) = Some buf"
    and "sscanf buf (dev_format name) = (2, [Val_llu rx, Val_llu tx])"
  shows "get_dev_rx_tx (Some name) (Some contents) =
           (Fopen NETFILE True #
            replicate (Suc (length (takeWhile (\<lambda>b. \<not> line_matches name b) (fgets_lines contents)))) Fgets @
            [Fclose], Inr (rx, tx))"
proof -
  have guard: "\<not> (CHR ''%'' \<in> set name \<or> 128 < length (dev_format name) + 1)"
    using assms(1,2) by (simp add: dev_format_def)
  have m: "(\<lambda>b. fst (sscanf b (dev_format name)) = 2) = line_matches name"
    by (rule ext) (simp add: line_matches_def)
  have nm: "(\<lambda>b. fst (sscanf b (dev_format name)) \<noteq> 2) = (\<lambda>b. \<not> line_matches name b)"
    by (rule ext) (simp add: line_matches_def)
  show ?thesis
    using guard assms(3,4)
    by (simp add: get_dev_rx_tx_def read_loop_eq m nm)
qed

lemma get_dev_rx_tx_not_found:
  assumes "CHR ''%'' \<notin> set name" and "length name \<le> 31"
    and "find (line_matches name) (fgets_lines contents) = None"
  shows "get_dev_rx_tx (Some name) (Some contents) =
           (Fopen NETFILE True #
            replicate (Suc (length (takeWhile (\<lambda>b. \<not> line_matches name b) (fgets_lines contents)))) Fgets @
            [Printf (''Could not find interface '' @ name @ '' in '' @ NETFILE @ NL)],
            Inl (Exit 1))"
proof -
  have guard: "\<not> (CHR ''%'' \<in> set name \<or> 128 < length (dev_format name) + 1)"
    using assms(1,2) by (simp add: dev_format_def)
  have m: "(\<lambda>b. fst (sscanf b (dev_format name)) = 2) = line_matches name"
    by (rule ext) (simp add: line_matches_def)
  have nm: "(\<lambda>b. fst (sscanf b (dev_format name)) \<noteq> 2) = (\<lambda>b. \<not> line_matches name b)"
    by (rule ext) (simp add: line_matches_def)
  show ?thesis
    using guard assms(3)
    by (simp add: get_dev_rx_tx_def read_loop_eq m nm)
qed

lemma get_dev_rx_tx_unopened:
  assumes "CHR ''%'' \<notin> set name" and "length name \<le> 31"
  shows "get_dev_rx_tx (Some name) None =
           ([Fopen NETFILE False, Printf (''Error opening '' @ NETFILE @ '', permissions?'' @ NL)],
            Inl (Exit 1))"
  using assms by (simp add: get_dev_rx_tx_def dev_format_def)


text \<open>
  On a table of text lines \<^verbatim>\<open>fgets\<close> delivers the lines one by one, and a line that does
  not start, after white space, with the name and a colon does not match.
\<close>

lemma read_line_text:
  "CHR 0x0A \<notin> set l \<Longrightarrow> length l < k \<Longrightarrow>
   read_line k (l @ CHR 0x0A # after) = (l @ [CHR 0x0A], after)"
  by (induction l arbitrary: k) auto

lemma fgets_text_line:
  assumes "text_line l"
  shows "fgets 256 (l @ NL @ after) = Some (l @ NL, after)"
proof -
  have "read_line 255 (l @ CHR 0x0A # after) = (l @ [CHR 0x0A], after)"
    using assms by (intro read_line_text) (simp_all add: text_line_def)
  then show ?thesis
    by (simp add: fgets_def NL_def)
qed

lemma fgets_lines_text:
  assumes "\<forall>l \<in> set ls. text_line l"
  shows "fgets_lines (table_text ls @ after) = map (\<lambda>l. l @ NL) ls @ fgets_lines after"
  using assms
proof (induction ls)
  case Nil
  then show ?case by (simp add: table_text_def)
next
  case (Cons l ls)
  have "fgets 256 (table_text (l # ls) @ after) = Some (l @ NL, table_text ls @ after)"
    using fgets_text_line [of l "table_text ls @ after"] Cons.prems
    by (simp add: table_text_def)
  then show ?case
    using Cons by (simp add: fgets_lines.simps [of "table_text (l # ls) @ after"])
qed

lemma fgets_lines_empty: "fgets_lines [] = []"
  by (simp add: fgets_lines.simps [of "[]"] fgets_def)

lemma run_ordinary_prefix:
  "run_directives (map Ordinary p @ ds) inp [] = (n, vals) \<Longrightarrow> 0 < n \<Longrightarrow> prefix p inp"
proof (induction p arbitrary: inp)
  case Nil
  then show ?case by simp
next
  case (Cons c p)
  show ?case
  proof (cases inp)
    case Nil
    with Cons.prems show ?thesis by (simp add: input_failure_def)
  next
    case (Cons x xs)
    show ?thesis
    proof (cases "x = c")
      case True
      with Cons.prems \<open>inp = x # xs\<close> Cons.IH [of xs] show ?thesis by simp
    next
      case False
      with Cons.prems \<open>inp = x # xs\<close> show ?thesis by (simp add: matching_failure_def)
    qed
  qed
qed

lemma plain_name_directives:
  assumes "plain_name name"
  shows "parse_format (dev_format name) =
     White_Space # map Ordinary (name @ '':'') @ concat (map (\<lambda>s. [White_Space, Conv_llu s])
       [False, True, True, True, True, True, True, True,
        False, True, True, True, True, True, True, True])"
proof -
  have "CHR ''%'' \<notin> set name"
    using assms by (auto simp: plain_name_def)
  moreover have "map (\<lambda>c. if isspace c then White_Space else Ordinary c) name = map Ordinary name"
    using assms by (simp add: plain_name_def)
  ultimately show ?thesis
    by (simp add: parse_dev_format)
qed

lemma line_matches_prefix:
  assumes "plain_name name" and "line_matches name buf"
  shows "prefix (name @ '':'') (dropWhile isspace (c_str buf))"
proof -
  obtain vals where "sscanf buf (dev_format name) = (2, vals)"
    using assms(2) by (cases "sscanf buf (dev_format name)") (simp add: line_matches_def)
  then have "run_directives (map Ordinary (name @ '':'') @ concat (map (\<lambda>s. [White_Space, Conv_llu s])
       [False, True, True, True, True, True, True, True,
        False, True, True, True, True, True, True, True])) (dropWhile isspace (c_str buf)) [] = (2, vals)"
    by (simp add: sscanf_def plain_name_directives [OF assms(1)])
  then show ?thesis
    by (rule run_ordinary_prefix) simp
qed

lemma text_line_no_match:
  assumes "plain_name name" and "text_line l"
    and "\<not> prefix (name @ '':'') (dropWhile isspace l)"
  shows "\<not> line_matches name (l @ NL)"
proof
  assume "line_matches name (l @ NL)"
  from line_matches_prefix [OF assms(1) this]
  have p: "prefix (name @ '':'') (dropWhile isspace (l @ NL))"
    using assms(2) by (simp add: c_str_no_nul text_line_def NL_def)
  have nl: "CHR 0x0A \<notin> set (name @ '':'')"
    using assms(1) by (auto simp: plain_name_def isspace_def)
  show False
  proof (cases "\<forall>c \<in> set l. isspace c")
    case True
    then have "dropWhile isspace (l @ NL) = []"
      by (simp add: NL_def isspace_def)
    with p show False by simp
  next
    case False
    then have "dropWhile isspace (l @ NL) = dropWhile isspace l @ [CHR 0x0A]"
      by (auto simp: NL_def dropWhile_append)
    with p nl assms(3) show False
      by auto
  qed
qed

lemma plain_name_guard:
  assumes "plain_name name"
  shows "CHR ''%'' \<notin> set name" and "length name \<le> 31"
  using assms by (auto simp: plain_name_def)

lemma reader_outcome:
  assumes "plain_name name"
  shows "(if \<exists>buf \<in> set (fgets_lines contents). line_matches name buf
          then \<exists>rx tx. get_dev_rx_tx (Some name) (Some contents) =
                 (Fopen NETFILE True #
                  replicate (Suc (length (takeWhile (\<lambda>b. \<not> line_matches name b) (fgets_lines contents)))) Fgets @
                  [Fclose], Inr (rx, tx))
          else get_dev_rx_tx (Some name) (Some contents) =
                 (Fopen NETFILE True #
                  replicate (Suc (length (takeWhile (\<lambda>b. \<not> line_matches name b) (fgets_lines contents)))) Fgets @
                  [Printf (''Could not find interface '' @ name @ '' in '' @ NETFILE @ NL)],
                  Inl (Exit 1)))"
proof (cases "find (line_matches name) (fgets_lines contents)")
  case None
  then have "\<not> (\<exists>buf \<in> set (fgets_lines contents). line_matches name buf)"
    by (simp add: find_None_iff)
  with get_dev_rx_tx_not_found [OF plain_name_guard [OF assms] None] show ?thesis
    by simp
next
  case (Some buf)
  then have m: "buf \<in> set (fgets_lines contents)" "line_matches name buf"
    by (auto simp: find_Some_iff)
  from line_matches_values [OF plain_name_guard(1) [OF assms] m(2)]
  obtain rx tx where "sscanf buf (dev_format name) = (2, [Val_llu rx, Val_llu tx])"
    by blast
  from get_dev_rx_tx_found [OF plain_name_guard [OF assms] Some this] m show ?thesis
    by auto
qed

text \<open>
  C8.  For a literal interface name the reader stops the process with status 1 in two
  cases and no other: the file cannot be opened, or no buffer the loop reads matches.
  In every other case it returns a pair of counters.  The first case prints the
  diagnostic with the path of the file, the second the diagnostic with the interface
  name, and the two texts differ.  On a table of text lines none of which starts, after
  white space, with the name and a colon, the second case applies.
\<close>

theorem reader_fatal_exactly_two_cases:
  assumes "plain_name name"
  shows "(snd (get_dev_rx_tx (Some name) src) = Inl (Exit 1) \<longleftrightarrow>
            src = None \<or>
            (\<exists>contents. src = Some contents \<and>
               (\<forall>buf \<in> set (fgets_lines contents). \<not> line_matches name buf))) \<and>
         (snd (get_dev_rx_tx (Some name) src) \<noteq> Inl (Exit 1) \<longrightarrow>
            (\<exists>rx tx. snd (get_dev_rx_tx (Some name) src) = Inr (rx, tx))) \<and>
         (src = None \<longrightarrow>
            get_dev_rx_tx (Some name) src =
              ([Fopen NETFILE False,
                Printf (''Error opening '' @ NETFILE @ '', permissions?'' @ NL)], Inl (Exit 1))) \<and>
         (\<forall>contents. src = Some contents \<and>
              (\<forall>buf \<in> set (fgets_lines contents). \<not> line_matches name buf) \<longrightarrow>
            last (fst (get_dev_rx_tx (Some name) src)) =
              Printf (''Could not find interface '' @ name @ '' in '' @ NETFILE @ NL)) \<and>
         (\<forall>ls. src = Some (table_text ls) \<and>
              (\<forall>l \<in> set ls. text_line l \<and> \<not> prefix (name @ '':'') (dropWhile isspace l)) \<longrightarrow>
            snd (get_dev_rx_tx (Some name) src) = Inl (Exit 1)) \<and>
         ''Error opening '' @ NETFILE @ '', permissions?'' @ NL \<noteq>
           ''Could not find interface '' @ name @ '' in '' @ NETFILE @ NL"
proof -
  have unopened: "get_dev_rx_tx (Some name) None =
      ([Fopen NETFILE False, Printf (''Error opening '' @ NETFILE @ '', permissions?'' @ NL)],
       Inl (Exit 1))"
    by (rule get_dev_rx_tx_unopened [OF plain_name_guard [OF assms]])
  have found: "\<exists>rx tx. snd (get_dev_rx_tx (Some name) (Some contents)) = Inr (rx, tx)"
    if "\<exists>buf \<in> set (fgets_lines contents). line_matches name buf" for contents
    using reader_outcome [OF assms, of contents] that by auto
  have missing: "snd (get_dev_rx_tx (Some name) (Some contents)) = Inl (Exit 1) \<and>
      last (fst (get_dev_rx_tx (Some name) (Some contents))) =
        Printf (''Could not find interface '' @ name @ '' in '' @ NETFILE @ NL)"
    if "\<forall>buf \<in> set (fgets_lines contents). \<not> line_matches name buf" for contents
    using reader_outcome [OF assms, of contents] that by auto
  have table: "snd (get_dev_rx_tx (Some name) (Some (table_text ls))) = Inl (Exit 1)"
    if "\<forall>l \<in> set ls. text_line l \<and> \<not> prefix (name @ '':'') (dropWhile isspace l)" for ls
  proof -
    have "fgets_lines (table_text ls) = map (\<lambda>l. l @ NL) ls"
      using fgets_lines_text [of ls "[]"] that by (simp add: fgets_lines_empty)
    moreover have "\<forall>l \<in> set ls. \<not> line_matches name (l @ NL)"
      using that text_line_no_match [OF assms] by blast
    ultimately have "\<forall>buf \<in> set (fgets_lines (table_text ls)). \<not> line_matches name buf"
      by auto
    from missing [OF this] show ?thesis by simp
  qed
  have iff: "snd (get_dev_rx_tx (Some name) src) = Inl (Exit 1) \<longleftrightarrow>
            src = None \<or>
            (\<exists>contents. src = Some contents \<and>
               (\<forall>buf \<in> set (fgets_lines contents). \<not> line_matches name buf))"
  proof (cases src)
    case None
    then show ?thesis by (simp add: unopened)
  next
    case (Some contents)
    show ?thesis
    proof (cases "\<exists>buf \<in> set (fgets_lines contents). line_matches name buf")
      case True
      with found [OF True] Some show ?thesis by auto
    next
      case False
      with missing [of contents] Some show ?thesis by auto
    qed
  qed
  have other: "\<exists>rx tx. snd (get_dev_rx_tx (Some name) src) = Inr (rx, tx)"
    if "snd (get_dev_rx_tx (Some name) src) \<noteq> Inl (Exit 1)"
  proof (cases src)
    case None
    with that show ?thesis by (simp add: unopened)
  next
    case (Some contents)
    with that missing [of contents] have "\<exists>buf \<in> set (fgets_lines contents). line_matches name buf"
      by auto
    from found [OF this] Some show ?thesis by simp
  qed
  have distinct: "''Error opening '' @ NETFILE @ '', permissions?'' @ NL \<noteq>
           ''Could not find interface '' @ name @ '' in '' @ NETFILE @ NL"
    by simp
  show ?thesis
  proof (intro conjI allI impI)
    show "snd (get_dev_rx_tx (Some name) src) = Inl (Exit 1) \<longleftrightarrow>
            src = None \<or>
            (\<exists>contents. src = Some contents \<and>
               (\<forall>buf \<in> set (fgets_lines contents). \<not> line_matches name buf))"
      by (rule iff)
  qed (use other unopened missing table distinct in \<open>simp_all\<close>)
qed

theorem reader_fatal_exactly_two_cases_witness:
  "plain_name ''wlan0'' \<and>
   get_dev_rx_tx (Some ''wlan0'') None =
     ([Fopen NETFILE False, Printf (''Error opening /proc/net/dev, permissions?'' @ NL)],
      Inl (Exit 1)) \<and>
   snd (get_dev_rx_tx (Some ''wlan0'') (Some (table_text ['' eth0: 1 2 3 4 5 6 7 8 9'']))) =
     Inl (Exit 1)"
proof -
  have pn: "plain_name ''wlan0''"
    by (simp add: plain_name_def isspace_def)
  have tl: "\<forall>l \<in> set ['' eth0: 1 2 3 4 5 6 7 8 9''].
      text_line l \<and> \<not> prefix (''wlan0'' @ '':'') (dropWhile isspace l)"
    by (simp add: text_line_def isspace_def)
  have "get_dev_rx_tx (Some ''wlan0'') None =
      ([Fopen NETFILE False, Printf (''Error opening '' @ NETFILE @ '', permissions?'' @ NL)],
       Inl (Exit 1))"
    using reader_fatal_exactly_two_cases [OF pn, of None] by simp
  moreover have "snd (get_dev_rx_tx (Some ''wlan0'')
      (Some (table_text ['' eth0: 1 2 3 4 5 6 7 8 9'']))) = Inl (Exit 1)"
    using reader_fatal_exactly_two_cases [OF pn, of "Some (table_text ['' eth0: 1 2 3 4 5 6 7 8 9''])"] tl
    by blast
  ultimately show ?thesis
    using pn by (simp add: NETFILE_def)
qed

text \<open>
  C10 as stated fails.  When no line matches, \<^verbatim>\<open>fclose\<close> is not called: after the last
  \<^verbatim>\<open>fgets\<close> the program prints the diagnostic and exits, with the file still open.
\<close>

theorem handle_left_open_counterexample:
  "get_dev_rx_tx (Some ''wlan0'') (Some (''  eth0: 1 2 3 4 5 6 7 8 9'' @ NL)) =
     ([Fopen NETFILE True, Fgets, Fgets,
       Printf (''Could not find interface wlan0 in /proc/net/dev'' @ NL)], Inl (Exit 1)) \<and>
   Fclose \<notin> set (fst (get_dev_rx_tx (Some ''wlan0'') (Some (''  eth0: 1 2 3 4 5 6 7 8 9'' @ NL))))"
proof -
  have "get_dev_rx_tx (Some ''wlan0'') (Some (''  eth0: 1 2 3 4 5 6 7 8 9'' @ NL)) =
     ([Fopen NETFILE True, Fgets, Fgets,
       Printf (''Could not find interface wlan0 in /proc/net/dev'' @ NL)], Inl (Exit 1))"
    by (simp add: eval_defs)
  then show ?thesis by simp
qed

text \<open>
  C10 amended.  When a buffer matches, the file is closed right after the \<^verbatim>\<open>fgets\<close>
  call that delivered it: \<^verbatim>\<open>fclose\<close> is the reader's last effect, and in a run of the
  program everything the evaluator does comes after it.  When no buffer matches, there
  is no \<^verbatim>\<open>fclose\<close>: the not-found diagnostic follows the last \<^verbatim>\<open>fgets\<close> and the
  process ends with status 1.
\<close>

theorem handle_closed_when_line_found:
  assumes "plain_name name"
  shows "(if \<exists>buf \<in> set (fgets_lines contents). line_matches name buf
          then \<exists>rx tx.
                 get_dev_rx_tx (Some name) (Some contents) =
                   (Fopen NETFILE True #
                    replicate (Suc (length (takeWhile (\<lambda>b. \<not> line_matches name b) (fgets_lines contents)))) Fgets @
                    [Fclose], Inr (rx, tx)) \<and>
                 (\<forall>opts args tr1 options.
                    parse_cmd_line opts args options_init = (tr1, Inr options) \<and>
                    interface options = Some name \<longrightarrow>
                    fst (main opts args (Some contents)) =
                      tr1 @ Fopen NETFILE True #
                      replicate (Suc (length (takeWhile (\<lambda>b. \<not> line_matches name b) (fgets_lines contents)))) Fgets @
                      [Fclose] @ fst (evaluate_bytes options rx tx))
          else get_dev_rx_tx (Some name) (Some contents) =
                 (Fopen NETFILE True #
                  replicate (Suc (length (takeWhile (\<lambda>b. \<not> line_matches name b) (fgets_lines contents)))) Fgets @
                  [Printf (''Could not find interface '' @ name @ '' in '' @ NETFILE @ NL)],
                  Inl (Exit 1)) \<and>
               (\<forall>opts args tr1 options.
                  parse_cmd_line opts args options_init = (tr1, Inr options) \<and>
                  interface options = Some name \<longrightarrow>
                  main opts args (Some contents) =
                    (tr1 @ Fopen NETFILE True #
                     replicate (Suc (length (takeWhile (\<lambda>b. \<not> line_matches name b) (fgets_lines contents)))) Fgets @
                     [Printf (''Could not find interface '' @ name @ '' in '' @ NETFILE @ NL)],
                     Exit 1)))"
proof (cases "\<exists>buf \<in> set (fgets_lines contents). line_matches name buf")
  case True
  with reader_outcome [OF assms, of contents]
  obtain rx tx where r: "get_dev_rx_tx (Some name) (Some contents) =
      (Fopen NETFILE True #
       replicate (Suc (length (takeWhile (\<lambda>b. \<not> line_matches name b) (fgets_lines contents)))) Fgets @
       [Fclose], Inr (rx, tx))"
    by auto
  have "fst (main opts args (Some contents)) =
      tr1 @ Fopen NETFILE True #
      replicate (Suc (length (takeWhile (\<lambda>b. \<not> line_matches name b) (fgets_lines contents)))) Fgets @
      [Fclose] @ fst (evaluate_bytes options rx tx)"
    if "parse_cmd_line opts args options_init = (tr1, Inr options) \<and> interface options = Some name"
    for opts args tr1 options
    using that r by (simp add: main_def and_then_Inr split: prod.splits sum.splits)
  with r True show ?thesis
    by (simp only: if_True) blast
next
  case False
  with reader_outcome [OF assms, of contents]
  have r: "get_dev_rx_tx (Some name) (Some contents) =
      (Fopen NETFILE True #
       replicate (Suc (length (takeWhile (\<lambda>b. \<not> line_matches name b) (fgets_lines contents)))) Fgets @
       [Printf (''Could not find interface '' @ name @ '' in '' @ NETFILE @ NL)],
       Inl (Exit 1))"
    by auto
  have "main opts args (Some contents) =
      (tr1 @ Fopen NETFILE True #
       replicate (Suc (length (takeWhile (\<lambda>b. \<not> line_matches name b) (fgets_lines contents)))) Fgets @
       [Printf (''Could not find interface '' @ name @ '' in '' @ NETFILE @ NL)],
       Exit 1)"
    if "parse_cmd_line opts args options_init = (tr1, Inr options) \<and> interface options = Some name"
    for opts args tr1 options
    using that r by (simp add: main_def and_then_Inr and_then_Inl)
  with r False show ?thesis
    by (simp only: if_False) blast
qed

theorem handle_closed_when_line_found_witness:
  "plain_name ''eth0'' \<and>
   (\<exists>buf \<in> set (fgets_lines (table_text [''    lo: 5 0 0 0 0 0 0 0 5'', ''  eth0: 100 0 0 0 0 0 0 0 200''])).
      line_matches ''eth0'' buf) \<and>
   (\<exists>rx tx. get_dev_rx_tx (Some ''eth0'')
      (Some (table_text [''    lo: 5 0 0 0 0 0 0 0 5'', ''  eth0: 100 0 0 0 0 0 0 0 200''])) =
     ([Fopen NETFILE True, Fgets, Fgets, Fclose], Inr (rx, tx)))"
proof -
  let ?C = "table_text [''    lo: 5 0 0 0 0 0 0 0 5'', ''  eth0: 100 0 0 0 0 0 0 0 200'']"
  have pn: "plain_name ''eth0''"
    by (simp add: plain_name_def isspace_def)
  have lines: "fgets_lines ?C =
      [''    lo: 5 0 0 0 0 0 0 0 5'' @ NL, ''  eth0: 100 0 0 0 0 0 0 0 200'' @ NL]"
    using fgets_lines_text [of "[''    lo: 5 0 0 0 0 0 0 0 5'', ''  eth0: 100 0 0 0 0 0 0 0 200'']" "[]"]
    by (simp add: text_line_def fgets_lines_empty)
  have no: "\<not> line_matches ''eth0'' (''    lo: 5 0 0 0 0 0 0 0 5'' @ NL)"
    by (simp add: line_matches_def eval_defs)
  have yes: "line_matches ''eth0'' (''  eth0: 100 0 0 0 0 0 0 0 200'' @ NL)"
    by (simp add: line_matches_def eval_defs)
  have m: "\<exists>buf \<in> set (fgets_lines ?C). line_matches ''eth0'' buf"
    using yes by (simp add: lines)
  have k: "Suc (length (takeWhile (\<lambda>b. \<not> line_matches ''eth0'' b) (fgets_lines ?C))) = 2"
    using no yes by (simp add: lines)
  from handle_closed_when_line_found [OF pn, of ?C] m
  have "\<exists>rx tx. get_dev_rx_tx (Some ''eth0'') (Some ?C) =
      (Fopen NETFILE True #
       replicate (Suc (length (takeWhile (\<lambda>b. \<not> line_matches ''eth0'' b) (fgets_lines ?C)))) Fgets @
       [Fclose], Inr (rx, tx))"
    by (simp only: if_True) blast
  then have "\<exists>rx tx. get_dev_rx_tx (Some ''eth0'') (Some ?C) =
      ([Fopen NETFILE True, Fgets, Fgets, Fclose], Inr (rx, tx))"
    by (simp only: k) (simp add: numeral_2_eq_2)
  with pn m show ?thesis by blast
qed


text \<open>
  How the format reads a line of numeric fields: a field directive consumes one field,
  and the directives after the ninth field assign nothing.
\<close>

lemma run_ordinary_match:
  "run_directives (map Ordinary p @ ds) (p @ inp) acc = run_directives ds inp acc"
  by (induction p) simp_all

lemma numeric_field_follow:
  assumes "\<forall>f \<in> set fs. numeric_field f" and "follow = [] \<or> \<not> isdigit (hd follow)"
  shows "concat (map (\<lambda>f. fst f @ snd f) fs) @ follow = [] \<or>
         \<not> isdigit (hd (concat (map (\<lambda>f. fst f @ snd f) fs) @ follow))"
proof (cases fs)
  case Nil
  with assms(2) show ?thesis by simp
next
  case (Cons f fs')
  with assms(1) have "fst f \<noteq> []" and "isspace (hd (fst f))"
    by (auto simp: numeric_field_def)
  then have "\<not> isdigit (hd (fst f))"
    using isdigit_not_special(1) by blast
  with \<open>fst f \<noteq> []\<close> Cons show ?thesis
    by simp
qed

lemma run_field:
  assumes "numeric_field f" and "follow = [] \<or> \<not> isdigit (hd follow)"
  shows "run_directives (White_Space # Conv_llu s # ds) (fst f @ snd f @ follow) acc =
         run_directives ds follow
           (if s then acc else acc @ [Val_llu (strtoull_value False (decimal_value (snd f)))])"
proof -
  have pad: "\<forall>c \<in> set (fst f). isspace c" and ds: "snd f \<noteq> []" "\<forall>c \<in> set (snd f). isdigit c"
    using assms(1) by (simp_all add: numeric_field_def)
  have "conv_llu (dropWhile isspace (fst f @ snd f @ follow)) = conv_llu (fst f @ snd f @ follow)"
    by (simp add: conv_llu_def)
  also have "\<dots> = conv_llu (snd f @ follow)"
    by (rule conv_llu_skip_space [OF pad])
  also have "\<dots> = Converted (strtoull_value False (decimal_value (snd f))) follow"
    by (rule conv_llu_digits [OF ds assms(2)])
  finally show ?thesis
    by simp
qed

lemma run_skipped_fields:
  assumes "\<forall>f \<in> set fs. numeric_field f" and "follow = [] \<or> \<not> isdigit (hd follow)"
  shows "run_directives (concat (replicate (length fs) [White_Space, Conv_llu True]) @ ds)
           (concat (map (\<lambda>f. fst f @ snd f) fs) @ follow) acc =
         run_directives ds follow acc"
  using assms(1)
proof (induction fs)
  case Nil
  show ?case by simp
next
  case (Cons f fs)
  have f: "numeric_field f" and fs: "\<forall>f \<in> set fs. numeric_field f"
    using Cons.prems by simp_all
  have "run_directives (White_Space # Conv_llu True #
          (concat (replicate (length fs) [White_Space, Conv_llu True]) @ ds))
          (fst f @ snd f @ (concat (map (\<lambda>f. fst f @ snd f) fs) @ follow)) acc =
        run_directives (concat (replicate (length fs) [White_Space, Conv_llu True]) @ ds)
          (concat (map (\<lambda>f. fst f @ snd f) fs) @ follow) acc"
    using run_field [OF f numeric_field_follow [OF fs assms(2)], of True] by simp
  with Cons.IH [OF fs] show ?case
    by simp
qed

lemma run_unassigning:
  assumes "\<forall>d \<in> set ds. d = White_Space \<or> d = Conv_llu True" and "acc \<noteq> []"
  shows "run_directives ds inp acc = (int (length acc), acc)"
  using assms(1)
proof (induction ds arbitrary: inp)
  case Nil
  show ?case by simp
next
  case (Cons d ds)
  then have d: "d = White_Space \<or> d = Conv_llu True"
    and IH: "\<And>inp. run_directives ds inp acc = (int (length acc), acc)"
    by simp_all
  from d show ?case
  proof
    assume "d = White_Space"
    then show ?thesis by (simp add: IH)
  next
    assume "d = Conv_llu True"
    then show ?thesis
      using assms(2)
      by (cases "conv_llu inp") (simp_all add: IH input_failure_def matching_failure_def)
  qed
qed

lemma field_directives_split:
  "concat (map (\<lambda>s. [White_Space, Conv_llu s])
       [False, True, True, True, True, True, True, True,
        False, True, True, True, True, True, True, True]) =
   White_Space # Conv_llu False #
     (concat (replicate 7 [White_Space, Conv_llu True]) @
      White_Space # Conv_llu False # concat (replicate 7 [White_Space, Conv_llu True]))"
  by (simp add: numeral_eq_Suc)

lemma nine_fields:
  assumes "9 \<le> length fs"
  shows "fs = fs ! 0 # take 7 (drop 1 fs) @ fs ! 8 # drop 9 fs"
proof -
  have "fs = take 8 fs @ fs ! 8 # drop 9 fs"
    using id_take_nth_drop [of 8 fs] assms by simp
  moreover have "take 8 fs = fs ! 0 # take 7 (drop 1 fs)"
    using assms by (cases fs) simp_all
  ultimately show ?thesis
    by simp
qed

lemma dev_line_scan:
  assumes name: "plain_name name"
    and indent: "\<forall>c \<in> set indent. isspace c"
    and nine: "9 \<le> length fs"
    and fields: "\<forall>f \<in> set fs. numeric_field f"
    and rest: "rest = [] \<or> \<not> isdigit (hd rest)"
    and line: "text_line (dev_line indent name fs rest)"
  shows "sscanf (dev_line indent name fs rest @ NL) (dev_format name) =
           (2, [Val_llu (strtoull_value False (decimal_value (snd (fs ! 0)))),
                Val_llu (strtoull_value False (decimal_value (snd (fs ! 8))))])"
proof -
  define f1 mid f9 later where "f1 = fs ! 0" and "mid = take 7 (drop 1 fs)"
    and "f9 = fs ! 8" and "later = drop 9 fs"
  define render where "render = (\<lambda>f :: string \<times> string. fst f @ snd f)"
  define v1 v9 where "v1 = strtoull_value False (decimal_value (snd f1))"
    and "v9 = strtoull_value False (decimal_value (snd f9))"
  have fs: "fs = f1 # mid @ f9 # later"
    unfolding f1_def mid_def f9_def later_def by (rule nine_fields [OF nine])
  have len: "length mid = 7"
    using nine by (simp add: mid_def)
  have f1: "numeric_field f1" and mid: "\<forall>f \<in> set mid. numeric_field f"
    and f9: "numeric_field f9" and later: "\<forall>f \<in> set later. numeric_field f"
    using fields by (simp_all add: fs [unfolded render_def])
  define follow_end where "follow_end = rest @ NL"
  define follow9 where "follow9 = concat (map render later) @ follow_end"
  define follow_mid where "follow_mid = fst f9 @ snd f9 @ follow9"
  define follow1 where "follow1 = concat (map render mid) @ follow_mid"
  have e: "follow_end = [] \<or> \<not> isdigit (hd follow_end)"
    using rest by (cases rest) (simp_all add: follow_end_def NL_def isdigit_def)
  have ok9: "follow9 = [] \<or> \<not> isdigit (hd follow9)"
    unfolding follow9_def render_def by (rule numeric_field_follow [OF later e])
  have "follow_mid = concat (map (\<lambda>f. fst f @ snd f) (f9 # later)) @ follow_end"
    by (simp add: follow_mid_def follow9_def render_def)
  moreover have "\<forall>f \<in> set (f9 # later). numeric_field f"
    using f9 later by simp
  ultimately have ok_mid: "follow_mid = [] \<or> \<not> isdigit (hd follow_mid)"
    using numeric_field_follow [OF _ e, of "f9 # later"] by simp
  have ok1: "follow1 = [] \<or> \<not> isdigit (hd follow1)"
    unfolding follow1_def render_def by (rule numeric_field_follow [OF mid ok_mid])
  have buf: "dev_line indent name fs rest @ NL = indent @ (name @ '':'') @ fst f1 @ snd f1 @ follow1"
    by (simp add: dev_line_def fs follow1_def follow_mid_def follow9_def follow_end_def render_def)
  have nonul: "c_str (dev_line indent name fs rest @ NL) = dev_line indent name fs rest @ NL"
    using line by (intro c_str_no_nul) (simp add: text_line_def NL_def)
  have start: "\<not> isspace (hd ((name @ '':'') @ fst f1 @ snd f1 @ follow1))"
    using name by (cases name) (simp_all add: plain_name_def isspace_def)
  have skip: "dropWhile isspace (indent @ (name @ '':'') @ fst f1 @ snd f1 @ follow1) =
      (name @ '':'') @ fst f1 @ snd f1 @ follow1"
  proof -
    have "dropWhile isspace (indent @ (name @ '':'') @ fst f1 @ snd f1 @ follow1) =
        dropWhile isspace ((name @ '':'') @ fst f1 @ snd f1 @ follow1)"
      using indent by (simp add: dropWhile_append2)
    also have "\<dots> = (name @ '':'') @ fst f1 @ snd f1 @ follow1"
      using start by (cases "(name @ '':'') @ fst f1 @ snd f1 @ follow1") simp_all
    finally show ?thesis .
  qed
  let ?skip7 = "concat (replicate 7 [White_Space, Conv_llu True])"
  have step1: "run_directives (White_Space # Conv_llu False #
        (?skip7 @ White_Space # Conv_llu False # ?skip7)) (fst f1 @ snd f1 @ follow1) [] =
      run_directives (?skip7 @ White_Space # Conv_llu False # ?skip7) follow1 [Val_llu v1]"
    using run_field [OF f1 ok1, of False _ "[]"] by (simp add: v1_def)
  have step2: "run_directives (?skip7 @ White_Space # Conv_llu False # ?skip7) follow1 [Val_llu v1] =
      run_directives (White_Space # Conv_llu False # ?skip7) follow_mid [Val_llu v1]"
    using run_skipped_fields [OF mid ok_mid, of "White_Space # Conv_llu False # ?skip7" "[Val_llu v1]"]
    by (simp add: len follow1_def render_def)
  have step3: "run_directives (White_Space # Conv_llu False # ?skip7) follow_mid [Val_llu v1] =
      run_directives ?skip7 follow9 [Val_llu v1, Val_llu v9]"
    using run_field [OF f9 ok9, of False ?skip7 "[Val_llu v1]"]
    by (simp add: follow_mid_def v9_def)
  have step4: "run_directives ?skip7 follow9 [Val_llu v1, Val_llu v9] = (2, [Val_llu v1, Val_llu v9])"
    using run_unassigning [of ?skip7 "[Val_llu v1, Val_llu v9]" follow9] by auto
  have "sscanf (dev_line indent name fs rest @ NL) (dev_format name) =
      run_directives (White_Space # map Ordinary (name @ '':'') @
        White_Space # Conv_llu False # (?skip7 @ White_Space # Conv_llu False # ?skip7))
        (indent @ (name @ '':'') @ fst f1 @ snd f1 @ follow1) []"
    by (simp only: sscanf_def buf nonul [unfolded buf] plain_name_directives [OF name]
        field_directives_split)
  also have "\<dots> = run_directives (map Ordinary (name @ '':'') @
        White_Space # Conv_llu False # (?skip7 @ White_Space # Conv_llu False # ?skip7))
        ((name @ '':'') @ fst f1 @ snd f1 @ follow1) []"
    by (simp only: run_directives.simps skip)
  also have "\<dots> = run_directives (White_Space # Conv_llu False #
        (?skip7 @ White_Space # Conv_llu False # ?skip7)) (fst f1 @ snd f1 @ follow1) []"
    by (rule run_ordinary_match)
  also have "\<dots> = (2, [Val_llu v1, Val_llu v9])"
    by (simp only: step1 step2 step3 step4)
  finally show ?thesis
    by (simp add: v1_def v9_def f1_def f9_def)
qed

lemma longer_name_no_prefix:
  assumes "prefix (name @ [c]) t" and "c \<noteq> CHR '':''"
  shows "\<not> prefix (name @ '':'') t"
  using assms by (auto simp: prefix_def)

lemma find_append_None: "find P xs = None \<Longrightarrow> find P (xs @ ys) = find P ys"
  by (induction xs) (simp_all split: if_splits)

text \<open>
  C4.  Take a literal interface name and a table of text lines in which no line before
  a given one starts, after white space, with the name and a colon, and the given line
  is indentation, the name, a colon and at least nine numeric fields separated by white
  space (the first and the ninth within 64 bits).  Then the reader returns the first
  field as \<^verbatim>\<open>bytes_rx\<close> and the ninth as \<^verbatim>\<open>bytes_tx\<close>, whatever follows in the file.  A
  line whose leading token goes on after the name with a character other than the
  colon, such as the line of \<^verbatim>\<open>eth01\<close> for the name \<^verbatim>\<open>eth0\<close>, never matches.
\<close>

theorem reader_returns_first_matching_line:
  assumes "plain_name name"
    and "\<forall>l \<in> set before. text_line l \<and> \<not> prefix (name @ '':'') (dropWhile isspace l)"
    and "\<forall>c \<in> set indent. isspace c"
    and "9 \<le> length fs" and "\<forall>f \<in> set fs. numeric_field f"
    and "rest = [] \<or> \<not> isdigit (hd rest)"
    and "text_line (dev_line indent name fs rest)"
    and "decimal_value (snd (fs ! 0)) < 2 ^ 64" and "decimal_value (snd (fs ! 8)) < 2 ^ 64"
  shows "snd (get_dev_rx_tx (Some name)
                (Some (table_text (before @ [dev_line indent name fs rest]) @ after))) =
           Inr (word_of_nat (decimal_value (snd (fs ! 0))),
                word_of_nat (decimal_value (snd (fs ! 8)))) \<and>
         (\<forall>l c. text_line l \<and> c \<noteq> CHR '':'' \<and> prefix (name @ [c]) (dropWhile isspace l) \<longrightarrow>
            \<not> line_matches name (l @ NL))"
proof
  let ?l = "dev_line indent name fs rest"
  let ?rx = "strtoull_value False (decimal_value (snd (fs ! 0)))"
  let ?tx = "strtoull_value False (decimal_value (snd (fs ! 8)))"
  have scan: "sscanf (?l @ NL) (dev_format name) = (2, [Val_llu ?rx, Val_llu ?tx])"
    by (rule dev_line_scan [OF assms(1,3,4,5,6,7)])
  then have hit: "line_matches name (?l @ NL)"
    by (simp add: line_matches_def)
  have miss: "\<forall>l \<in> set before. \<not> line_matches name (l @ NL)"
    using assms(2) text_line_no_match [OF assms(1)] by blast
  have "\<forall>l \<in> set (before @ [?l]). text_line l"
    using assms(2,7) by simp
  then have lines: "fgets_lines (table_text (before @ [?l]) @ after) =
      map (\<lambda>l. l @ NL) before @ (?l @ NL) # fgets_lines after"
    using fgets_lines_text [of "before @ [?l]" after] by simp
  have "find (line_matches name) (map (\<lambda>l. l @ NL) before) = None"
    using miss by (simp add: find_None_iff)
  with hit have "find (line_matches name) (fgets_lines (table_text (before @ [?l]) @ after)) =
      Some (?l @ NL)"
    by (simp add: lines find_append_None)
  from get_dev_rx_tx_found [OF plain_name_guard [OF assms(1)] this scan]
  have "snd (get_dev_rx_tx (Some name) (Some (table_text (before @ [?l]) @ after))) =
      Inr (?rx, ?tx)"
    by simp
  then show "snd (get_dev_rx_tx (Some name) (Some (table_text (before @ [?l]) @ after))) =
      Inr (word_of_nat (decimal_value (snd (fs ! 0))), word_of_nat (decimal_value (snd (fs ! 8))))"
    by (simp only: strtoull_value_small [OF assms(8)] strtoull_value_small [OF assms(9)])
next
  show "\<forall>l c. text_line l \<and> c \<noteq> CHR '':'' \<and> prefix (name @ [c]) (dropWhile isspace l) \<longrightarrow>
      \<not> line_matches name (l @ NL)"
    using text_line_no_match [OF assms(1)] longer_name_no_prefix by blast
qed

theorem reader_returns_first_matching_line_witness:
  "snd (get_dev_rx_tx (Some ''eth0'')
     (Some (table_text [''Inter-|   Receive'',
                        '' eth01: 1 2 3 4 5 6 7 8 9 10 11 12 13 14 15 16'',
                        ''  eth0: 100 0 0 0 0 0 0 0 200 0 0 0 0 0 0 0'']))) = Inr (100, 200) \<and>
   \<not> line_matches ''eth0'' ('' eth01: 1 2 3 4 5 6 7 8 9 10 11 12 13 14 15 16'' @ NL)"
proof -
  let ?before = "[''Inter-|   Receive'', '' eth01: 1 2 3 4 5 6 7 8 9 10 11 12 13 14 15 16'']"
  let ?fs = "[('' '', ''100''), ('' '', ''0''), ('' '', ''0''), ('' '', ''0''), ('' '', ''0''),
              ('' '', ''0''), ('' '', ''0''), ('' '', ''0''), ('' '', ''200''), ('' '', ''0''),
              ('' '', ''0''), ('' '', ''0''), ('' '', ''0''), ('' '', ''0''), ('' '', ''0''),
              ('' '', ''0'')]"
  have h1: "plain_name ''eth0''"
    by (simp add: plain_name_def isspace_def)
  have h2: "\<forall>l \<in> set ?before. text_line l \<and> \<not> prefix (''eth0'' @ '':'') (dropWhile isspace l)"
    by (simp add: text_line_def isspace_def)
  have h3: "\<forall>c \<in> set ''  ''. isspace c"
    by (simp add: isspace_def)
  have h4: "9 \<le> length ?fs"
    by simp
  have h5: "\<forall>f \<in> set ?fs. numeric_field f"
    by (simp add: numeric_field_def isspace_def isdigit_def)
  have h6: "[] = [] \<or> \<not> isdigit (hd [])"
    by simp
  have line: "dev_line ''  '' ''eth0'' ?fs [] = ''  eth0: 100 0 0 0 0 0 0 0 200 0 0 0 0 0 0 0''"
    by (simp add: dev_line_def)
  have h7: "text_line (dev_line ''  '' ''eth0'' ?fs [])"
    unfolding line by (simp add: text_line_def)
  have h8: "decimal_value (snd (?fs ! 0)) < 2 ^ 64"
    by (simp add: decimal_value_def digit_value_def)
  have h9: "decimal_value (snd (?fs ! 8)) < 2 ^ 64"
    by (simp add: decimal_value_def digit_value_def)
  have other: "text_line '' eth01: 1 2 3 4 5 6 7 8 9 10 11 12 13 14 15 16'' \<and>
      CHR ''1'' \<noteq> CHR '':'' \<and>
      prefix (''eth0'' @ [CHR ''1'']) (dropWhile isspace '' eth01: 1 2 3 4 5 6 7 8 9 10 11 12 13 14 15 16'')"
    by (simp add: text_line_def isspace_def)
  note inst = reader_returns_first_matching_line [OF h1 h2 h3 h4 h5 h6 h7 h8 h9, of "[]"]
  from inst have "snd (get_dev_rx_tx (Some ''eth0'')
       (Some (table_text (?before @ [dev_line ''  '' ''eth0'' ?fs []]) @ []))) =
      Inr (word_of_nat (decimal_value (snd (?fs ! 0))), word_of_nat (decimal_value (snd (?fs ! 8))))"
    by (rule conjunct1)
  then have a: "snd (get_dev_rx_tx (Some ''eth0'')
     (Some (table_text [''Inter-|   Receive'',
                        '' eth01: 1 2 3 4 5 6 7 8 9 10 11 12 13 14 15 16'',
                        ''  eth0: 100 0 0 0 0 0 0 0 200 0 0 0 0 0 0 0'']))) = Inr (100, 200)"
    by (simp add: line decimal_value_def digit_value_def)
  from inst other have b: "\<not> line_matches ''eth0'' ('' eth01: 1 2 3 4 5 6 7 8 9 10 11 12 13 14 15 16'' @ NL)"
    by blast
  from a b show ?thesis ..
qed


end
